theory Spec2Isabelle
  imports Main "HOL-Library.Word" "HOL-Library.Multiset"
begin

unbundle bit_operations_syntax

section \<open>Common types\<close>

text \<open>
  \<open>frame_id_t\<close> and \<open>page_id_t\<close> are signed integers, \<open>size_t\<close> is an unsigned 64-bit
  integer whose arithmetic wraps around.  A C++ exception, an out-of-range array access and
  the use of an uninitialised variable end an operation without a result: they are the
  faults below.
\<close>

type_synonym frame_id_t = int
type_synonym page_id_t = int
type_synonym size_t = "64 word"

datatype fault =
  Exception                \<comment> \<open>\<open>throw std::exception()\<close>\<close>
| IndexOutOfRange          \<comment> \<open>\<open>pages_[i]\<close> or \<open>dir_[i]\<close> read outside the array\<close>
| UninitialisedFrameId     \<comment> \<open>\<open>frame_id\<close> used after a failed \<open>Evict(&frame_id)\<close>\<close>

text \<open>\<open>static_cast<int>(n)\<close> for a \<open>size_t\<close>: the low 32 bits, read as two's complement.\<close>

definition static_cast_int :: "size_t \<Rightarrow> int" where
  "static_cast_int n = sint (ucast n :: 32 word)"

section \<open>LRU-K replacer (lru\_k\_replacer.cpp)\<close>

text \<open>
  The fields of \<open>LRUKReplacer\<close>.  Their declarations are in the header
  \<open>lru_k_replacer.h\<close>, which is not among the sources; the types are those that the code
  uses the fields at.  The two lists are \<open>std::list<frame_id_t>\<close>, the two maps are
  \<open>std::unordered_map\<close>s keyed by frame id; \<open>curr_size_\<close> (initially 0),
  \<open>replacer_size_\<close> and \<open>k_\<close> are \<open>size_t\<close>, and so are the access counts, which the
  code compares with \<open>k_\<close>.  The latch is left out: a call is one atomic step.
\<close>

record replacer =
  replacer_size :: size_t
  k_val :: size_t
  curr_size :: size_t
  lru_list :: "frame_id_t list"
  lru_k_list :: "frame_id_t list"
  access_count_map :: "frame_id_t \<rightharpoonup> size_t"
  is_evictable_map :: "frame_id_t \<rightharpoonup> bool"

definition LRUKReplacer :: "size_t \<Rightarrow> size_t \<Rightarrow> replacer" where
  "LRUKReplacer num_frames k =
     \<lparr>replacer_size = num_frames, k_val = k, curr_size = 0, lru_list = [], lru_k_list = [],
      access_count_map = Map.empty, is_evictable_map = Map.empty\<rparr>"

text \<open>
  \<open>m[key]\<close> on an \<open>unordered_map\<close>: a missing key is first inserted with the value-initialised
  default (\<open>false\<close>, \<open>0\<close>), so even a read can change the map.
\<close>

definition subscript :: "'v \<Rightarrow> ('k \<rightharpoonup> 'v) \<Rightarrow> 'k \<Rightarrow> 'v \<times> ('k \<rightharpoonup> 'v)" where
  "subscript dflt m key = (case m key of None \<Rightarrow> (dflt, m(key \<mapsto> dflt)) | Some v \<Rightarrow> (v, m))"

text \<open>
  The scanning loop of \<open>Evict\<close>: \<open>while (p != end) { if (is_evictable_map[*p]) break; p++; }\<close>.
  The result is the position reached (the length of the list for \<open>end\<close>) and the map, which
  \<open>operator[]\<close> may have extended.
\<close>

fun scan_evictable :: "frame_id_t list \<Rightarrow> (frame_id_t \<rightharpoonup> bool) \<Rightarrow> nat \<times> (frame_id_t \<rightharpoonup> bool)" where
  "scan_evictable [] m = (0, m)"
| "scan_evictable (f # fs) m =
     (let (e, m1) = subscript False m f in
      if e then (0, m1)
      else (let (p, m2) = scan_evictable fs m1 in (Suc p, m2)))"

text \<open>\<open>list.erase(p)\<close> for the position \<open>p\<close>.\<close>

definition erase_at :: "nat \<Rightarrow> 'a list \<Rightarrow> 'a list" where
  "erase_at p xs = take p xs @ drop (Suc p) xs"

definition Evict :: "replacer \<Rightarrow> replacer \<times> frame_id_t option" where
  "Evict r =
     (if curr_size r = 0 then (r, None)
      else
        (let (p, m1) = scan_evictable (lru_list r) (is_evictable_map r) in
         if p < length (lru_list r) then
           (let f = lru_list r ! p in
            (r\<lparr>access_count_map := (access_count_map r)(f := None),
               is_evictable_map := m1(f := None),
               lru_list := erase_at p (lru_list r),
               curr_size := curr_size r - 1\<rparr>, Some f))
         else
           (let (q, m2) = scan_evictable (lru_k_list r) m1 in
            if q < length (lru_k_list r) then
              (let f = lru_k_list r ! q in
               (r\<lparr>access_count_map := (access_count_map r)(f := None),
                  is_evictable_map := m2(f := None),
                  lru_k_list := erase_at q (lru_k_list r),
                  curr_size := curr_size r - 1\<rparr>, Some f))
            else (r\<lparr>is_evictable_map := m2\<rparr>, None))))"

definition RecordAccess :: "replacer \<Rightarrow> frame_id_t \<Rightarrow> fault + replacer" where
  "RecordAccess r frame_id =
     (if frame_id > static_cast_int (replacer_size r) then Inl Exception
      else
        (let (c0, a0) = subscript 0 (access_count_map r) frame_id;
             c = c0 + 1;
             a = a0(frame_id \<mapsto> c);
             r1 = r\<lparr>access_count_map := a\<rparr>
         in
         if c = 1 then Inr (r1\<lparr>lru_list := lru_list r @ [frame_id]\<rparr>)
         else if c < k_val r then
           Inr (r1\<lparr>lru_list := removeAll frame_id (lru_list r) @ [frame_id]\<rparr>)
         else if c = k_val r then
           Inr (r1\<lparr>lru_list := removeAll frame_id (lru_list r),
                   lru_k_list := lru_k_list r @ [frame_id]\<rparr>)
         else
           Inr (r1\<lparr>lru_k_list := removeAll frame_id (lru_k_list r) @ [frame_id]\<rparr>)))"

definition SetEvictable :: "replacer \<Rightarrow> frame_id_t \<Rightarrow> bool \<Rightarrow> fault + replacer" where
  "SetEvictable r frame_id set_evictable =
     (if frame_id > static_cast_int (replacer_size r) then Inl Exception
      else
        (let (m1, c1) =
               (case is_evictable_map r frame_id of
                  None \<Rightarrow> ((is_evictable_map r)(frame_id \<mapsto> set_evictable),
                            if set_evictable then curr_size r + 1 else curr_size r)
                | Some _ \<Rightarrow> (is_evictable_map r, curr_size r));
             (e2, m2) = subscript False m1 frame_id;
             (m3, c3) = (if \<not> e2 \<and> set_evictable then (m2(frame_id \<mapsto> True), c1 + 1)
                         else (m2, c1));
             (e4, m4) = subscript False m3 frame_id;
             (m5, c5) = (if e4 \<and> \<not> set_evictable then (m4(frame_id \<mapsto> False), c3 - 1)
                         else (m4, c3))
         in Inr (r\<lparr>is_evictable_map := m5, curr_size := c5\<rparr>)))"

definition Remove :: "replacer \<Rightarrow> frame_id_t \<Rightarrow> fault + replacer" where
  "Remove r frame_id =
     (if frame_id > static_cast_int (replacer_size r) then Inl Exception
      else
        (let (e, m1) = subscript False (is_evictable_map r) frame_id;
             r1 = r\<lparr>is_evictable_map := m1\<rparr>
         in
         if \<not> e then Inr r1
         else
           (let (access_count, a1) = subscript 0 (access_count_map r1) frame_id;
                r2 = (if access_count < k_val r1
                      then r1\<lparr>lru_list := removeAll frame_id (lru_list r1)\<rparr>
                      else if access_count \<ge> k_val r1
                      then r1\<lparr>lru_k_list := removeAll frame_id (lru_k_list r1)\<rparr>
                      else r1);
                a2 = a1(frame_id \<mapsto> access_count - 1);
                a3 = (if access_count - 1 = 0 then a2(frame_id := None) else a2)
            in Inr (r2\<lparr>access_count_map := a3, curr_size := curr_size r2 - 1\<rparr>))))"

definition Size :: "replacer \<Rightarrow> size_t" where
  "Size r = curr_size r"

text \<open>A sequence of calls, stopping at the first fault.\<close>

datatype replacer_call = Access frame_id_t | SetEv frame_id_t bool | Rem frame_id_t

fun replacer_run :: "replacer \<Rightarrow> replacer_call list \<Rightarrow> fault + replacer" where
  "replacer_run r [] = Inr r"
| "replacer_run r (Access f # cs) =
     (case RecordAccess r f of Inl e \<Rightarrow> Inl e | Inr r' \<Rightarrow> replacer_run r' cs)"
| "replacer_run r (SetEv f b # cs) =
     (case SetEvictable r f b of Inl e \<Rightarrow> Inl e | Inr r' \<Rightarrow> replacer_run r' cs)"
| "replacer_run r (Rem f # cs) =
     (case Remove r f of Inl e \<Rightarrow> Inl e | Inr r' \<Rightarrow> replacer_run r' cs)"

text \<open>The replacer's view of a frame: its entry in \<open>is_evictable_map\<close> is \<open>true\<close>.\<close>

definition evictable :: "replacer \<Rightarrow> frame_id_t \<Rightarrow> bool" where
  "evictable r f = (is_evictable_map r f = Some True)"

text \<open>The number of recorded accesses of a frame, \<open>0\<close> for a frame without an entry.\<close>

definition access_count :: "replacer \<Rightarrow> frame_id_t \<Rightarrow> size_t" where
  "access_count r f = (case access_count_map r f of None \<Rightarrow> 0 | Some c \<Rightarrow> c)"

subsection \<open>Facts about the scan of \<open>Evict\<close>\<close>

lemma scan_evictable_spec:
  "scan_evictable xs m = (p, m') \<Longrightarrow>
     p = length (takeWhile (\<lambda>f. m f \<noteq> Some True) xs) \<and> (\<forall>g. (m' g = Some True) = (m g = Some True))"
proof (induction xs arbitrary: m p m')
  case Nil
  then show ?case by simp
next
  case (Cons f fs)
  show ?case
  proof (cases "m f")
    case None
    obtain q m2 where sc: "scan_evictable fs (m(f \<mapsto> False)) = (q, m2)"
      by (cases "scan_evictable fs (m(f \<mapsto> False))")
    from Cons.IH [OF sc] have q: "q = length (takeWhile (\<lambda>g. (m(f \<mapsto> False)) g \<noteq> Some True) fs)"
      and ev: "\<forall>g. (m2 g = Some True) = ((m(f \<mapsto> False)) g = Some True)" by simp_all
    have same: "(\<lambda>g. (m(f \<mapsto> False)) g \<noteq> Some True) = (\<lambda>g. m g \<noteq> Some True)"
      using None by (auto simp: fun_eq_iff)
    from Cons.prems None sc have "p = Suc q" "m' = m2"
      by (simp_all add: subscript_def)
    with q ev same None show ?thesis by auto
  next
    case (Some b)
    show ?thesis
    proof (cases b)
      case True
      with Some Cons.prems show ?thesis by (simp add: subscript_def)
    next
      case False
      obtain q m2 where sc: "scan_evictable fs m = (q, m2)"
        by (cases "scan_evictable fs m")
      from Cons.prems Some False sc have "p = Suc q" "m' = m2"
        by (simp_all add: subscript_def)
      with Cons.IH [OF sc] Some False show ?thesis by simp
    qed
  qed
qed



subsection \<open>\<open>Evict\<close>\<close>











subsection \<open>\<open>Remove\<close>\<close>

text \<open>
  Three replacers: frame 1 accessed once and set non-evictable; frame 1 accessed twice
  (\<open>k = 2\<close>) and set evictable; and the latter after \<open>Remove\<close> of frame 1.
\<close>

definition tracked_not_evictable :: replacer where
  "tracked_not_evictable =
     \<lparr>replacer_size = 7, k_val = 2, curr_size = 0, lru_list = [1], lru_k_list = [],
      access_count_map = [1 \<mapsto> 1], is_evictable_map = [1 \<mapsto> False]\<rparr>"

definition twice_accessed :: replacer where
  "twice_accessed =
     \<lparr>replacer_size = 7, k_val = 2, curr_size = 1, lru_list = [], lru_k_list = [1],
      access_count_map = [1 \<mapsto> 2], is_evictable_map = [1 \<mapsto> True]\<rparr>"

definition twice_accessed_removed :: replacer where
  "twice_accessed_removed =
     \<lparr>replacer_size = 7, k_val = 2, curr_size = 0, lru_list = [], lru_k_list = [],
      access_count_map = [1 \<mapsto> 1], is_evictable_map = [1 \<mapsto> True]\<rparr>"

text \<open>
  Claim C2, as stated, fails on both counts.  \<open>Remove\<close> of the tracked, non-evictable frame 1
  returns normally and changes nothing, so it is not fatal.  \<open>Remove\<close> of the tracked,
  evictable frame 1 leaves its evictability entry at \<open>true\<close> and its access count at 1, so
  the frame is not back in the absent state.
\<close>

theorem Remove_counterexample:
  "replacer_run (LRUKReplacer 7 2) [Access 1, SetEv 1 False] = Inr tracked_not_evictable \<and>
   Remove tracked_not_evictable 1 = Inr tracked_not_evictable \<and>
   replacer_run (LRUKReplacer 7 2) [Access 1, Access 1, SetEv 1 True] = Inr twice_accessed \<and>
   Remove twice_accessed 1 = Inr twice_accessed_removed \<and>
   is_evictable_map twice_accessed_removed 1 = Some True \<and>
   access_count_map twice_accessed_removed 1 = Some 1"
  by (simp add: RecordAccess_def SetEvictable_def Remove_def LRUKReplacer_def static_cast_int_def
      subscript_def Let_def tracked_not_evictable_def twice_accessed_def twice_accessed_removed_def)

text \<open>
  Claim C2, amended.  For a frame id that passes the range check, \<open>Remove\<close> never fails.
  If the frame is evictable, it is taken off the list that its access count selects (the
  history list below \<open>k\<close> accesses, the cache list otherwise), the other list is unchanged
  and \<open>curr_size_\<close> is decremented.  If the frame is not evictable, the call returns
  normally: both lists, the access counts and \<open>curr_size_\<close> are as before and the frame is
  still not evictable.
\<close>

theorem Remove_behaviour:
  assumes "\<not> frame_id > static_cast_int (replacer_size r)"
  shows "\<exists>r'. Remove r frame_id = Inr r' \<and>
     (if evictable r frame_id
      then (if access_count r frame_id < k_val r
            then lru_list r' = removeAll frame_id (lru_list r) \<and> lru_k_list r' = lru_k_list r
            else lru_list r' = lru_list r \<and> lru_k_list r' = removeAll frame_id (lru_k_list r)) \<and>
           frame_id \<notin> set (if access_count r frame_id < k_val r then lru_list r' else lru_k_list r') \<and>
           curr_size r' = curr_size r - 1
      else lru_list r' = lru_list r \<and> lru_k_list r' = lru_k_list r \<and>
           access_count_map r' = access_count_map r \<and> curr_size r' = curr_size r \<and>
           \<not> evictable r' frame_id)"
proof (cases "evictable r frame_id")
  case True
  then have "subscript False (is_evictable_map r) frame_id = (True, is_evictable_map r)"
    by (simp add: evictable_def subscript_def)
  moreover have "fst (subscript 0 (access_count_map r) frame_id) = access_count r frame_id"
    by (simp add: access_count_def subscript_def split: option.splits)
  ultimately show ?thesis
    using assms True
    by (cases "subscript 0 (access_count_map r) frame_id")
      (auto simp: Remove_def Let_def)
next
  case False
  then have "fst (subscript False (is_evictable_map r) frame_id) = False"
    by (cases "is_evictable_map r frame_id") (auto simp: evictable_def subscript_def)
  moreover have "snd (subscript False (is_evictable_map r) frame_id) frame_id \<noteq> Some True"
    using False by (cases "is_evictable_map r frame_id") (auto simp: evictable_def subscript_def)
  ultimately show ?thesis
    using assms False
    by (cases "subscript False (is_evictable_map r) frame_id")
      (auto simp: Remove_def Let_def evictable_def)
qed

theorem Remove_behaviour_witness:
  "\<not> 1 > static_cast_int (replacer_size twice_accessed) \<and>
   evictable twice_accessed 1 \<and>
   \<not> access_count twice_accessed 1 < k_val twice_accessed \<and>
   (\<exists>r'. Remove twice_accessed 1 = Inr r' \<and> lru_list r' = [] \<and> lru_k_list r' = [] \<and>
      curr_size r' = 0) \<and>
   \<not> evictable tracked_not_evictable 1 \<and>
   (\<exists>r'. Remove tracked_not_evictable 1 = Inr r' \<and> lru_list r' = [1] \<and> lru_k_list r' = [] \<and>
      curr_size r' = 0)"
proof -
  have h: "\<not> 1 > static_cast_int (replacer_size twice_accessed)"
    by (simp add: twice_accessed_def static_cast_int_def)
  have e: "evictable twice_accessed 1"
    by (simp add: twice_accessed_def evictable_def)
  have c: "\<not> access_count twice_accessed 1 < k_val twice_accessed"
    by (simp add: twice_accessed_def access_count_def)
  from Remove_behaviour [OF h] e c
  obtain r' where "Remove twice_accessed 1 = Inr r'"
    "lru_list r' = lru_list twice_accessed"
    "lru_k_list r' = removeAll 1 (lru_k_list twice_accessed)"
    "curr_size r' = curr_size twice_accessed - 1"
    by auto
  then have first: "\<exists>r'. Remove twice_accessed 1 = Inr r' \<and> lru_list r' = [] \<and>
      lru_k_list r' = [] \<and> curr_size r' = 0"
    by (simp add: twice_accessed_def)
  have h': "\<not> 1 > static_cast_int (replacer_size tracked_not_evictable)"
    by (simp add: tracked_not_evictable_def static_cast_int_def)
  have e': "\<not> evictable tracked_not_evictable 1"
    by (simp add: tracked_not_evictable_def evictable_def)
  from Remove_behaviour [OF h'] e'
  obtain r'' where "Remove tracked_not_evictable 1 = Inr r''"
    "lru_list r'' = lru_list tracked_not_evictable"
    "lru_k_list r'' = lru_k_list tracked_not_evictable"
    "curr_size r'' = curr_size tracked_not_evictable"
    by auto
  then have second: "\<exists>r'. Remove tracked_not_evictable 1 = Inr r' \<and> lru_list r' = [1] \<and>
      lru_k_list r' = [] \<and> curr_size r' = 0"
    by (simp add: tracked_not_evictable_def)
  from h e c first e' second show ?thesis by blast
qed

section \<open>Extendible hash table (extendible\_hash\_table.cpp)\<close>

text \<open>
  A bucket has a capacity \<open>size_\<close>, a local depth \<open>depth_\<close> and the list \<open>list_\<close> of its
  entries.  The directory \<open>dir_\<close> is a vector of shared pointers to buckets, and several
  slots may point to the same bucket: a pointer is an address, the table carries the store
  from addresses to buckets, and \<open>std::make_shared\<close> takes the next unused address.
  The depths and \<open>num_buckets_\<close> are C++ \<open>int\<close>s, here natural numbers without an upper
  bound.  The hash function \<open>std::hash<K>\<close> is the parameter \<open>h\<close>, its value read
  as a natural number.
\<close>

type_synonym addr = nat

record ('k, 'v) bucket =
  b_size :: nat
  b_depth :: nat
  b_list :: "('k \<times> 'v) list"

record ('k, 'v) table =
  global_depth :: nat
  bucket_size :: nat
  num_buckets :: nat
  dir :: "addr list"
  heap :: "addr \<Rightarrow> ('k, 'v) bucket"
  next_addr :: addr

definition Bucket :: "nat \<Rightarrow> nat \<Rightarrow> ('k, 'v) bucket" where
  "Bucket array_size depth = \<lparr>b_size = array_size, b_depth = depth, b_list = []\<rparr>"

definition ExtendibleHashTable :: "nat \<Rightarrow> ('k, 'v) table" where
  "ExtendibleHashTable bucket_size0 =
     \<lparr>global_depth = 0, bucket_size = bucket_size0, num_buckets = 1, dir = [0],
      heap = (\<lambda>_. Bucket bucket_size0 0), next_addr = 1\<rparr>"

text \<open>
  Modelled from the spec: \<open>Bucket::IsFull\<close> is defined in the header
  \<open>extendible_hash_table.h\<close>, which is not among the sources.  A bucket holds a bounded
  list of entries with capacity \<open>bucket_size\<close>; it is full when its list has \<open>size_\<close>
  entries.
\<close>

definition IsFull :: "('k, 'v) bucket \<Rightarrow> bool" where
  "IsFull b = (length (b_list b) = b_size b)"

definition bucket_Find :: "('k, 'v) bucket \<Rightarrow> 'k \<Rightarrow> 'v option" where
  "bucket_Find b key = map_option snd (find (\<lambda>item. fst item = key) (b_list b))"

text \<open>
  \<open>Bucket::Remove\<close> stops at the first entry with the key and calls \<open>list_.remove(item)\<close>,
  which removes every entry equal to that one.
\<close>

definition bucket_Remove :: "('k, 'v) bucket \<Rightarrow> 'k \<Rightarrow> ('k, 'v) bucket \<times> bool" where
  "bucket_Remove b key =
     (case find (\<lambda>item. fst item = key) (b_list b) of
        None \<Rightarrow> (b, False)
      | Some item \<Rightarrow> (b\<lparr>b_list := removeAll item (b_list b)\<rparr>, True))"

definition bucket_Insert :: "('k, 'v) bucket \<Rightarrow> 'k \<Rightarrow> 'v \<Rightarrow> ('k, 'v) bucket \<times> bool" where
  "bucket_Insert b key val =
     (if IsFull b then (b, False) else (b\<lparr>b_list := b_list b @ [(key, val)]\<rparr>, True))"

definition IndexOf :: "('k \<Rightarrow> nat) \<Rightarrow> ('k, 'v) table \<Rightarrow> 'k \<Rightarrow> nat" where
  "IndexOf h s key = (let bit_mask = push_bit (global_depth s) 1 - 1 in h key AND bit_mask)"

text \<open>\<open>dir_[i]\<close>: a read outside the vector is a fault.\<close>

definition dir_at :: "('k, 'v) table \<Rightarrow> nat \<Rightarrow> fault + addr" where
  "dir_at s i = (if i < length (dir s) then Inr (dir s ! i) else Inl IndexOutOfRange)"

definition Find :: "('k \<Rightarrow> nat) \<Rightarrow> ('k, 'v) table \<Rightarrow> 'k \<Rightarrow> fault + ('k, 'v) table \<times> 'v option" where
  "Find h s key =
     (case dir_at s (IndexOf h s key) of
        Inl e \<Rightarrow> Inl e
      | Inr target_bucket \<Rightarrow> Inr (s, bucket_Find (heap s target_bucket) key))"

definition Remove_key :: "('k \<Rightarrow> nat) \<Rightarrow> ('k, 'v) table \<Rightarrow> 'k \<Rightarrow> fault + ('k, 'v) table \<times> bool" where
  "Remove_key h s key =
     (case dir_at s (IndexOf h s key) of
        Inl e \<Rightarrow> Inl e
      | Inr target_bucket \<Rightarrow>
          (let (b, found) = bucket_Remove (heap s target_bucket) key
           in Inr (s\<lparr>heap := (heap s)(target_bucket := b)\<rparr>, found)))"

text \<open>
  The body of the loop of \<open>Insert\<close>, in its three steps.  First the directory is doubled
  when the target bucket's depth equals the global depth.
\<close>

definition grow_directory :: "('k, 'v) table \<Rightarrow> addr \<Rightarrow> ('k, 'v) table" where
  "grow_directory s target_bucket =
     (if b_depth (heap s target_bucket) = global_depth s
      then s\<lparr>global_depth := global_depth s + 1, dir := dir s @ dir s\<rparr>
      else s)"

text \<open>
  Then two new buckets are made, and the entries of the target bucket are inserted into
  one or the other, by one bit of the hash.
\<close>

fun redistribute ::
  "('k \<Rightarrow> nat) \<Rightarrow> nat \<Rightarrow> ('k \<times> 'v) list \<Rightarrow> ('k, 'v) bucket \<times> ('k, 'v) bucket \<Rightarrow>
   ('k, 'v) bucket \<times> ('k, 'v) bucket" where
  "redistribute h bit_mask [] (bucket_0, bucket_1) = (bucket_0, bucket_1)"
| "redistribute h bit_mask (item # rest) (bucket_0, bucket_1) =
     (if h (fst item) AND bit_mask = 0
      then redistribute h bit_mask rest (fst (bucket_Insert bucket_0 (fst item) (snd item)), bucket_1)
      else redistribute h bit_mask rest (bucket_0, fst (bucket_Insert bucket_1 (fst item) (snd item))))"

text \<open>
  Last, every slot that points to the target bucket is set to one of the new buckets, by
  the same bit of the slot's index.
\<close>

definition rewire :: "addr \<Rightarrow> nat \<Rightarrow> addr \<Rightarrow> addr \<Rightarrow> addr list \<Rightarrow> addr list" where
  "rewire target_bucket bit_mask bucket_0 bucket_1 d =
     map (\<lambda>i. if d ! i = target_bucket
               then (if i AND bit_mask = 0 then bucket_0 else bucket_1)
               else d ! i) [0..<length d]"

definition redistribute_bucket :: "('k \<Rightarrow> nat) \<Rightarrow> ('k, 'v) table \<Rightarrow> addr \<Rightarrow> ('k, 'v) table" where
  "redistribute_bucket h s target_bucket =
     (let target = heap s target_bucket;
          bucket_0 = next_addr s;
          bucket_1 = next_addr s + 1;
          bit_mask = push_bit (b_depth target) 1;
          (b0, b1) = redistribute h bit_mask (b_list target)
                       (Bucket (bucket_size s) (b_depth target + 1),
                        Bucket (bucket_size s) (b_depth target + 1))
      in s\<lparr>num_buckets := num_buckets s + 1,
            dir := rewire target_bucket bit_mask bucket_0 bucket_1 (dir s),
            heap := (heap s)(bucket_0 := b0, bucket_1 := b1),
            next_addr := next_addr s + 2\<rparr>)"

text \<open>One iteration of the loop of \<open>Insert\<close> for the target bucket.\<close>

definition split_bucket :: "('k \<Rightarrow> nat) \<Rightarrow> ('k, 'v) table \<Rightarrow> addr \<Rightarrow> ('k, 'v) table" where
  "split_bucket h s target_bucket =
     redistribute_bucket h (grow_directory s target_bucket) target_bucket"

text \<open>
  The loop \<open>while (dir_[IndexOf(key)]->IsFull()) { ... }\<close>.  It may run forever; \<open>None\<close> is
  the loop that does not return.
\<close>

partial_function (option) split_loop ::
  "('k \<Rightarrow> nat) \<Rightarrow> ('k, 'v) table \<Rightarrow> 'k \<Rightarrow> (fault + ('k, 'v) table) option" where
  "split_loop h s key =
     (if IndexOf h s key < length (dir s)
      then (if IsFull (heap s (dir s ! IndexOf h s key))
            then split_loop h (split_bucket h s (dir s ! IndexOf h s key)) key
            else Some (Inr s))
      else Some (Inl IndexOutOfRange))"

declare split_loop.simps [code]

text \<open>
  The loop \<open>for (auto &item : ...) if (item.first == key) { item.second = value; return; }\<close>:
  the list with the first entry of the key overwritten, or \<open>None\<close> when the loop ends
  without a match.
\<close>

fun assign_value :: "'k \<Rightarrow> 'v \<Rightarrow> ('k \<times> 'v) list \<Rightarrow> ('k \<times> 'v) list option" where
  "assign_value key val [] = None"
| "assign_value key val (item # rest) =
     (if fst item = key then Some ((fst item, val) # rest)
      else map_option ((#) item) (assign_value key val rest))"

definition Insert ::
  "('k \<Rightarrow> nat) \<Rightarrow> ('k, 'v) table \<Rightarrow> 'k \<Rightarrow> 'v \<Rightarrow> (fault + ('k, 'v) table) option" where
  "Insert h s key val =
     (case split_loop h s key of
        None \<Rightarrow> None
      | Some (Inl e) \<Rightarrow> Some (Inl e)
      | Some (Inr s1) \<Rightarrow>
          (case dir_at s1 (IndexOf h s1 key) of
             Inl e \<Rightarrow> Some (Inl e)
           | Inr target_bucket \<Rightarrow>
               (let target = heap s1 target_bucket in
                case assign_value key val (b_list target) of
                  Some items \<Rightarrow>
                    Some (Inr (s1\<lparr>heap := (heap s1)(target_bucket := target\<lparr>b_list := items\<rparr>)\<rparr>))
                | None \<Rightarrow>
                    Some (Inr (s1\<lparr>heap := (heap s1)
                                 (target_bucket := fst (bucket_Insert target key val))\<rparr>)))))"

text \<open>The tables that calls of \<open>Insert\<close>, \<open>Find\<close> and \<open>Remove\<close> reach from a new table.\<close>

inductive reachable_table :: "('k \<Rightarrow> nat) \<Rightarrow> nat \<Rightarrow> ('k, 'v) table \<Rightarrow> bool"
  for h :: "'k \<Rightarrow> nat" and bucket_size0 :: nat where
  reach_new: "reachable_table h bucket_size0 (ExtendibleHashTable bucket_size0)"
| reach_Insert: "reachable_table h bucket_size0 s \<Longrightarrow> Insert h s key val = Some (Inr s') \<Longrightarrow>
     reachable_table h bucket_size0 s'"
| reach_Find: "reachable_table h bucket_size0 s \<Longrightarrow> Find h s key = Inr (s', r) \<Longrightarrow>
     reachable_table h bucket_size0 s'"
| reach_Remove: "reachable_table h bucket_size0 s \<Longrightarrow> Remove_key h s key = Inr (s', found) \<Longrightarrow>
     reachable_table h bucket_size0 s'"

subsection \<open>The invariant of the directory\<close>

text \<open>
  What holds of slot \<open>i\<close> of the directory: it points to an allocated bucket, whose local
  depth is at most the global depth, whose capacity is the table's and is respected, whose
  keys agree with \<open>i\<close> on the low local-depth bits of their hash, and which is shared by
  exactly the slots that agree with \<open>i\<close> on those bits.
\<close>

definition slot_ok :: "('k \<Rightarrow> nat) \<Rightarrow> ('k, 'v) table \<Rightarrow> nat \<Rightarrow> bool" where
  "slot_ok h s i \<longleftrightarrow>
     dir s ! i < next_addr s \<and>
     b_depth (heap s (dir s ! i)) \<le> global_depth s \<and>
     b_size (heap s (dir s ! i)) = bucket_size s \<and>
     length (b_list (heap s (dir s ! i))) \<le> bucket_size s \<and>
     (\<forall>item \<in> set (b_list (heap s (dir s ! i))).
        take_bit (b_depth (heap s (dir s ! i))) (h (fst item)) =
        take_bit (b_depth (heap s (dir s ! i))) i) \<and>
     (\<forall>j < length (dir s).
        (dir s ! i = dir s ! j) =
        (take_bit (b_depth (heap s (dir s ! i))) i = take_bit (b_depth (heap s (dir s ! i))) j))"

definition ht_inv :: "('k \<Rightarrow> nat) \<Rightarrow> ('k, 'v) table \<Rightarrow> bool" where
  "ht_inv h s \<longleftrightarrow> length (dir s) = 2 ^ global_depth s \<and> (\<forall>i < length (dir s). slot_ok h s i)"

lemma take_bit_Suc_eq_iff:
  "take_bit (Suc n) (a::nat) = take_bit (Suc n) b \<longleftrightarrow>
   take_bit n a = take_bit n b \<and> bit a n = bit b n"
proof
  assume eq: "take_bit (Suc n) a = take_bit (Suc n) b"
  have "take_bit n (take_bit (Suc n) a) = take_bit n (take_bit (Suc n) b)"
    using eq by simp
  then have low: "take_bit n a = take_bit n b"
    by simp
  have "bit (take_bit (Suc n) a) n = bit (take_bit (Suc n) b) n"
    using eq by simp
  then have "bit a n = bit b n"
    by (simp add: bit_take_bit_iff)
  with low show "take_bit n a = take_bit n b \<and> bit a n = bit b n" ..
next
  assume "take_bit n a = take_bit n b \<and> bit a n = bit b n"
  then show "take_bit (Suc n) a = take_bit (Suc n) b"
    by (simp add: take_bit_Suc_from_most)
qed

lemma take_bit_le_eq:
  "m \<le> n \<Longrightarrow> take_bit n (a::nat) = take_bit n b \<Longrightarrow> take_bit m a = take_bit m b"
proof -
  assume le: "m \<le> n" and eq: "take_bit n a = take_bit n b"
  have "take_bit m (take_bit n a) = take_bit m (take_bit n b)"
    using eq by simp
  with le show ?thesis by (simp add: min_def)
qed

lemma IndexOf_take_bit: "IndexOf h s key = take_bit (global_depth s) (h key)"
  by (simp add: IndexOf_def take_bit_eq_mask mask_eq_exp_minus_1)

lemma IndexOf_less: "ht_inv h s \<Longrightarrow> IndexOf h s key < length (dir s)"
  by (simp add: IndexOf_take_bit ht_inv_def)

lemma nth_doubled:
  assumes "length d = 2 ^ n" and "i < length (d @ d)"
  shows "(d @ d) ! i = d ! take_bit n i"
proof (cases "i < 2 ^ n")
  case True
  with assms show ?thesis by (simp add: nth_append take_bit_nat_def)
next
  case False
  then have "i mod 2 ^ n = (i - 2 ^ n) mod 2 ^ n"
    by (simp add: le_mod_geq)
  also have "\<dots> = i - 2 ^ n"
    using assms False by simp
  finally show ?thesis
    using assms False by (simp add: nth_append take_bit_nat_def)
qed

lemma ht_inv_grow:
  assumes inv: "ht_inv h s"
  shows "ht_inv h (grow_directory s t)"
proof (cases "b_depth (heap s t) = global_depth s")
  case False
  with inv show ?thesis by (simp add: grow_directory_def)
next
  case True
  let ?n = "global_depth s"
  let ?dd = "dir s @ dir s"
  have len: "length (dir s) = 2 ^ ?n"
    using inv by (simp add: ht_inv_def)
  have nth: "?dd ! j = dir s ! take_bit ?n j" if "j < length ?dd" for j
    using nth_doubled [OF len that] .
  have slot: "slot_ok h (s\<lparr>global_depth := ?n + 1, dir := ?dd\<rparr>) i" if i: "i < length ?dd" for i
  proof -
    let ?i = "take_bit ?n i"
    let ?d = "b_depth (heap s (dir s ! ?i))"
    have i': "?i < length (dir s)" by (simp add: len)
    have ok: "slot_ok h s ?i"
      using inv i' by (simp add: ht_inv_def)
    have d: "?d \<le> ?n" using ok by (simp add: slot_ok_def)
    have here: "?dd ! i = dir s ! ?i" by (rule nth [OF i])
    have keys: "\<forall>item \<in> set (b_list (heap s (dir s ! ?i))).
        take_bit ?d (h (fst item)) = take_bit ?d i"
      using ok d by (simp add: slot_ok_def min_absorb1)
    have pairs: "\<forall>j < length ?dd. (dir s ! ?i = ?dd ! j) = (take_bit ?d i = take_bit ?d j)"
    proof (intro allI impI)
      fix j assume j: "j < length ?dd"
      have "take_bit ?n j < length (dir s)" by (simp add: len)
      with ok have "(dir s ! ?i = dir s ! take_bit ?n j) =
          (take_bit ?d ?i = take_bit ?d (take_bit ?n j))"
        by (simp add: slot_ok_def)
      then have "(dir s ! ?i = dir s ! take_bit ?n j) = (take_bit ?d i = take_bit ?d j)"
        using d by (simp add: min_absorb1)
      then show "(dir s ! ?i = ?dd ! j) = (take_bit ?d i = take_bit ?d j)"
        by (simp only: nth [OF j])
    qed
    have unary: "dir s ! ?i < next_addr s" "b_size (heap s (dir s ! ?i)) = bucket_size s"
      "length (b_list (heap s (dir s ! ?i))) \<le> bucket_size s"
      using ok by (simp_all add: slot_ok_def)
    show ?thesis
      using unary d keys pairs by (simp add: slot_ok_def here)
  qed
  have "ht_inv h (s\<lparr>global_depth := ?n + 1, dir := ?dd\<rparr>)"
    unfolding ht_inv_def using len slot by simp
  with True show ?thesis by (simp add: grow_directory_def)
qed

subsection \<open>One split\<close>

lemma redistribute_filter:
  assumes "length (b_list b0) + length (filter (\<lambda>it. h (fst it) AND m = 0) items) \<le> b_size b0"
    and "length (b_list b1) + length (filter (\<lambda>it. h (fst it) AND m \<noteq> 0) items) \<le> b_size b1"
  shows "redistribute h m items (b0, b1) =
           (b0\<lparr>b_list := b_list b0 @ filter (\<lambda>it. h (fst it) AND m = 0) items\<rparr>,
            b1\<lparr>b_list := b_list b1 @ filter (\<lambda>it. h (fst it) AND m \<noteq> 0) items\<rparr>)"
  using assms
proof (induction items arbitrary: b0 b1)
  case Nil
  then show ?case by simp
next
  case (Cons item rest)
  show ?case
  proof (cases "h (fst item) AND m = 0")
    case True
    let ?b = "b0\<lparr>b_list := b_list b0 @ [item]\<rparr>"
    from True Cons.prems(1) have room: "length (b_list b0) < b_size b0" by simp
    then have ins: "fst (bucket_Insert b0 (fst item) (snd item)) = ?b"
      by (simp add: bucket_Insert_def IsFull_def)
    have "redistribute h m rest (?b, b1) =
        (?b\<lparr>b_list := b_list ?b @ filter (\<lambda>it. h (fst it) AND m = 0) rest\<rparr>,
         b1\<lparr>b_list := b_list b1 @ filter (\<lambda>it. h (fst it) AND m \<noteq> 0) rest\<rparr>)"
      using Cons.prems True by (intro Cons.IH) simp_all
    with True ins show ?thesis by simp
  next
    case False
    let ?b = "b1\<lparr>b_list := b_list b1 @ [item]\<rparr>"
    from False Cons.prems(2) have room: "length (b_list b1) < b_size b1" by simp
    then have ins: "fst (bucket_Insert b1 (fst item) (snd item)) = ?b"
      by (simp add: bucket_Insert_def IsFull_def)
    have "redistribute h m rest (b0, ?b) =
        (b0\<lparr>b_list := b_list b0 @ filter (\<lambda>it. h (fst it) AND m = 0) rest\<rparr>,
         ?b\<lparr>b_list := b_list ?b @ filter (\<lambda>it. h (fst it) AND m \<noteq> 0) rest\<rparr>)"
      using Cons.prems False by (intro Cons.IH) simp_all
    with False ins show ?thesis by simp
  qed
qed

lemma rewire_length [simp]: "length (rewire t m a0 a1 d) = length d"
  by (simp add: rewire_def)

lemma rewire_nth:
  "i < length d \<Longrightarrow>
   rewire t (2 ^ n) a0 a1 d ! i = (if d ! i = t then (if bit i n then a1 else a0) else d ! i)"
  by (simp add: rewire_def and_exp_eq_0_iff_not_bit)

text \<open>The two new buckets, when the old one is within its capacity.\<close>

definition low_half :: "('k \<Rightarrow> nat) \<Rightarrow> ('k, 'v) table \<Rightarrow> addr \<Rightarrow> ('k, 'v) bucket" where
  "low_half h s t =
     \<lparr>b_size = bucket_size s, b_depth = b_depth (heap s t) + 1,
      b_list = filter (\<lambda>it. \<not> bit (h (fst it)) (b_depth (heap s t))) (b_list (heap s t))\<rparr>"

definition high_half :: "('k \<Rightarrow> nat) \<Rightarrow> ('k, 'v) table \<Rightarrow> addr \<Rightarrow> ('k, 'v) bucket" where
  "high_half h s t =
     \<lparr>b_size = bucket_size s, b_depth = b_depth (heap s t) + 1,
      b_list = filter (\<lambda>it. bit (h (fst it)) (b_depth (heap s t))) (b_list (heap s t))\<rparr>"

lemma redistribute_bucket_eq:
  assumes "length (b_list (heap s t)) \<le> bucket_size s"
  shows "redistribute_bucket h s t =
           s\<lparr>num_buckets := num_buckets s + 1,
             dir := rewire t (2 ^ b_depth (heap s t)) (next_addr s) (Suc (next_addr s)) (dir s),
             heap := (heap s)(next_addr s := low_half h s t, Suc (next_addr s) := high_half h s t),
             next_addr := next_addr s + 2\<rparr>"
proof -
  let ?m = "(2::nat) ^ b_depth (heap s t)"
  let ?B = "Bucket (bucket_size s) (b_depth (heap s t) + 1) :: ('a, 'b) bucket"
  have l0: "length (filter (\<lambda>it. h (fst it) AND ?m = 0) (b_list (heap s t))) \<le> bucket_size s"
    using assms length_filter_le [of _ "b_list (heap s t)"] order_trans by blast
  have l1: "length (filter (\<lambda>it. h (fst it) AND ?m \<noteq> 0) (b_list (heap s t))) \<le> bucket_size s"
    using assms length_filter_le [of _ "b_list (heap s t)"] order_trans by blast
  have "redistribute h ?m (b_list (heap s t)) (?B, ?B) =
      (?B\<lparr>b_list := b_list ?B @ filter (\<lambda>it. h (fst it) AND ?m = 0) (b_list (heap s t))\<rparr>,
       ?B\<lparr>b_list := b_list ?B @ filter (\<lambda>it. h (fst it) AND ?m \<noteq> 0) (b_list (heap s t))\<rparr>)"
    using l0 l1 by (intro redistribute_filter) (simp_all add: Bucket_def)
  then have "redistribute h ?m (b_list (heap s t)) (?B, ?B) = (low_half h s t, high_half h s t)"
    by (simp add: Bucket_def low_half_def high_half_def and_exp_eq_0_iff_not_bit)
  then show ?thesis
    by (simp add: redistribute_bucket_def Let_def)
qed

lemma ht_inv_redistribute:
  assumes inv: "ht_inv h s" and i0: "i0 < length (dir s)" and t: "dir s ! i0 = t"
    and deep: "b_depth (heap s t) < global_depth s"
  shows "ht_inv h (redistribute_bucket h s t)"
proof -
  let ?d = "b_depth (heap s t)"
  let ?lo = "next_addr s"
  let ?hi = "Suc (next_addr s)"
  let ?dir = "rewire t (2 ^ ?d) ?lo ?hi (dir s)"
  let ?heap = "(heap s)(?lo := low_half h s t, ?hi := high_half h s t)"
  let ?s' = "s\<lparr>num_buckets := num_buckets s + 1, dir := ?dir, heap := ?heap,
               next_addr := next_addr s + 2\<rparr>"
  have ok: "slot_ok h s i" if "i < length (dir s)" for i
    using inv that by (simp add: ht_inv_def)
  have len: "length (dir s) = 2 ^ global_depth s"
    using inv by (simp add: ht_inv_def)
  have cap: "length (b_list (heap s t)) \<le> bucket_size s"
    using ok [OF i0] t by (simp add: slot_ok_def)
  have eq: "redistribute_bucket h s t = ?s'"
    by (rule redistribute_bucket_eq [OF cap])
  have old: "dir s ! i < ?lo" if "i < length (dir s)" for i
    using ok [OF that] by (simp add: slot_ok_def)
  have nth: "?dir ! i = (if dir s ! i = t then (if bit i ?d then ?hi else ?lo) else dir s ! i)"
    if "i < length (dir s)" for i
    using that by (rule rewire_nth)
  have same: "take_bit ?d i = take_bit ?d j \<longleftrightarrow> dir s ! j = t"
    if "i < length (dir s)" "dir s ! i = t" "j < length (dir s)" for i j
    using ok [OF that(1)] that(2,3) by (auto simp: slot_ok_def)
  have slot: "slot_ok h ?s' i" if i: "i < length (dir s)" for i
  proof (cases "dir s ! i = t")
    case False
    let ?x = "dir s ! i"
    have a: "?x < ?lo" by (rule old [OF i])
    have here: "?dir ! i = ?x" using nth [OF i] False by simp
    have hp: "?heap ?x = heap s ?x" using a by simp
    have pairs: "\<forall>j < length (dir s). (?x = ?dir ! j) =
        (take_bit (b_depth (heap s ?x)) i = take_bit (b_depth (heap s ?x)) j)"
    proof (intro allI impI)
      fix j assume j: "j < length (dir s)"
      have "(?x = ?dir ! j) = (?x = dir s ! j)"
        using nth [OF j] False a by auto
      also have "\<dots> = (take_bit (b_depth (heap s ?x)) i = take_bit (b_depth (heap s ?x)) j)"
        using ok [OF i] j by (simp add: slot_ok_def)
      finally show "(?x = ?dir ! j) =
        (take_bit (b_depth (heap s ?x)) i = take_bit (b_depth (heap s ?x)) j)" .
    qed
    have "?x < next_addr s + 2" using a by simp
    then show ?thesis
      using ok [OF i] pairs by (simp add: slot_ok_def here hp)
  next
    case True
    have keys: "\<forall>item \<in> set (b_list (heap s t)). take_bit ?d (h (fst item)) = take_bit ?d i"
      using ok [OF i] True by (simp add: slot_ok_def)
    show ?thesis
    proof (cases "bit i ?d")
      case hi: True
      have here: "?dir ! i = ?hi" using nth [OF i] True hi by simp
      have hp: "?heap ?hi = high_half h s t" by simp
      have pairs: "\<forall>j < length (dir s). (?hi = ?dir ! j) =
          (take_bit (Suc ?d) i = take_bit (Suc ?d) j)"
      proof (intro allI impI)
        fix j assume j: "j < length (dir s)"
        have "(?hi = ?dir ! j) = (dir s ! j = t \<and> bit j ?d)"
          using nth [OF j] old [OF j] by auto
        also have "\<dots> = (take_bit ?d i = take_bit ?d j \<and> bit i ?d = bit j ?d)"
          using same [OF i True j] hi by auto
        finally show "(?hi = ?dir ! j) = (take_bit (Suc ?d) i = take_bit (Suc ?d) j)"
          by (simp add: take_bit_Suc_eq_iff)
      qed
      have k: "\<forall>item \<in> set (b_list (high_half h s t)).
          take_bit (Suc ?d) (h (fst item)) = take_bit (Suc ?d) i"
        using keys hi by (auto simp: high_half_def take_bit_Suc_eq_iff)
      have u: "b_depth (high_half h s t) = Suc ?d" "b_size (high_half h s t) = bucket_size s"
        "length (b_list (high_half h s t)) \<le> bucket_size s"
        using cap le_trans [OF length_filter_le cap] by (simp_all add: high_half_def)
      show ?thesis
        unfolding slot_ok_def
        using deep k u pairs by (simp add: here hp del: fun_upd_apply)
    next
      case lo: False
      have here: "?dir ! i = ?lo" using nth [OF i] True lo by simp
      have hp: "?heap ?lo = low_half h s t" by simp
      have pairs: "\<forall>j < length (dir s). (?lo = ?dir ! j) =
          (take_bit (Suc ?d) i = take_bit (Suc ?d) j)"
      proof (intro allI impI)
        fix j assume j: "j < length (dir s)"
        have "(?lo = ?dir ! j) = (dir s ! j = t \<and> \<not> bit j ?d)"
          using nth [OF j] old [OF j] by auto
        also have "\<dots> = (take_bit ?d i = take_bit ?d j \<and> bit i ?d = bit j ?d)"
          using same [OF i True j] lo by auto
        finally show "(?lo = ?dir ! j) = (take_bit (Suc ?d) i = take_bit (Suc ?d) j)"
          by (simp add: take_bit_Suc_eq_iff)
      qed
      have k: "\<forall>item \<in> set (b_list (low_half h s t)).
          take_bit (Suc ?d) (h (fst item)) = take_bit (Suc ?d) i"
        using keys lo by (auto simp: low_half_def take_bit_Suc_eq_iff)
      have u: "b_depth (low_half h s t) = Suc ?d" "b_size (low_half h s t) = bucket_size s"
        "length (b_list (low_half h s t)) \<le> bucket_size s"
        using cap le_trans [OF length_filter_le cap] by (simp_all add: low_half_def)
      show ?thesis
        unfolding slot_ok_def
        using deep k u pairs by (simp add: here hp del: fun_upd_apply)
    qed
  qed
  have "ht_inv h ?s'"
    unfolding ht_inv_def using len slot by simp
  with eq show ?thesis by simp
qed

lemma grow_directory_nth:
  "i < length (dir s) \<Longrightarrow> dir (grow_directory s t) ! i = dir s ! i"
  by (simp add: grow_directory_def nth_append)

lemma grow_directory_length:
  "length (dir s) \<le> length (dir (grow_directory s t))"
  by (simp add: grow_directory_def)

lemma grow_directory_heap [simp]: "heap (grow_directory s t) = heap s"
  by (simp add: grow_directory_def)

lemma grow_directory_deep:
  "b_depth (heap s t) \<le> global_depth s \<Longrightarrow> b_depth (heap s t) < global_depth (grow_directory s t)"
  by (simp add: grow_directory_def)

lemma ht_inv_split:
  assumes inv: "ht_inv h s" and i0: "i0 < length (dir s)"
  shows "ht_inv h (split_bucket h s (dir s ! i0))"
proof -
  let ?t = "dir s ! i0"
  let ?s1 = "grow_directory s ?t"
  have "slot_ok h s i0" using inv i0 by (simp add: ht_inv_def)
  then have "b_depth (heap s ?t) \<le> global_depth s" by (simp add: slot_ok_def)
  then have deep: "b_depth (heap ?s1 ?t) < global_depth ?s1"
    using grow_directory_deep [of s ?t] by simp
  have i1: "i0 < length (dir ?s1)"
    using i0 grow_directory_length [of s ?t] by simp
  have t1: "dir ?s1 ! i0 = ?t"
    using i0 by (rule grow_directory_nth)
  show ?thesis
    unfolding split_bucket_def
    using ht_inv_grow [OF inv] i1 t1 deep by (rule ht_inv_redistribute)
qed

subsection \<open>The loop, \<open>Insert\<close> and \<open>Remove\<close> keep the invariant\<close>

lemma split_loop_inv_aux:
  assumes "split_loop h s key = Some r"
  shows "ht_inv h s \<longrightarrow>
     (\<exists>s'. r = Inr s' \<and> ht_inv h s' \<and> \<not> IsFull (heap s' (dir s' ! IndexOf h s' key)))"
proof (rule split_loop.raw_induct
    [where P = "\<lambda>h s key r. ht_inv h s \<longrightarrow>
       (\<exists>s'. r = Inr s' \<and> ht_inv h s' \<and> \<not> IsFull (heap s' (dir s' ! IndexOf h s' key)))",
     OF _ assms])
  fix loop :: "('a \<Rightarrow> nat) \<Rightarrow> ('a, 'b) table \<Rightarrow> 'a \<Rightarrow> (fault + ('a, 'b) table) option"
    and h s key r
  assume IH: "\<And>h s key r. loop h s key = Some r \<Longrightarrow> ht_inv h s \<longrightarrow>
       (\<exists>s'. r = Inr s' \<and> ht_inv h s' \<and> \<not> IsFull (heap s' (dir s' ! IndexOf h s' key)))"
    and body: "(if IndexOf h s key < length (dir s)
        then if IsFull (heap s (dir s ! IndexOf h s key))
             then loop h (split_bucket h s (dir s ! IndexOf h s key)) key
             else Some (Inr s)
        else Some (Inl IndexOutOfRange)) = Some r"
  show "ht_inv h s \<longrightarrow>
       (\<exists>s'. r = Inr s' \<and> ht_inv h s' \<and> \<not> IsFull (heap s' (dir s' ! IndexOf h s' key)))"
  proof
    assume inv: "ht_inv h s"
    have idx: "IndexOf h s key < length (dir s)"
      using inv by (rule IndexOf_less)
    show "\<exists>s'. r = Inr s' \<and> ht_inv h s' \<and> \<not> IsFull (heap s' (dir s' ! IndexOf h s' key))"
    proof (cases "IsFull (heap s (dir s ! IndexOf h s key))")
      case True
      with body idx have "loop h (split_bucket h s (dir s ! IndexOf h s key)) key = Some r"
        by simp
      from IH [OF this] ht_inv_split [OF inv idx] show ?thesis by simp
    next
      case False
      with body idx inv show ?thesis by auto
    qed
  qed
qed

lemma split_loop_inv:
  assumes "split_loop h s key = Some r" and "ht_inv h s"
  obtains s' where "r = Inr s'" and "ht_inv h s'"
    and "\<not> IsFull (heap s' (dir s' ! IndexOf h s' key))"
  using split_loop_inv_aux [OF assms(1)] assms(2) by blast

lemma ht_inv_heap_update:
  assumes inv: "ht_inv h s" and i0: "i0 < length (dir s)"
    and depth: "b_depth b = b_depth (heap s (dir s ! i0))"
    and size: "b_size b = bucket_size s"
    and len: "length (b_list b) \<le> bucket_size s"
    and keys: "\<forall>item \<in> set (b_list b).
        take_bit (b_depth b) (h (fst item)) = take_bit (b_depth b) i0"
  shows "ht_inv h (s\<lparr>heap := (heap s)(dir s ! i0 := b)\<rparr>)"
proof -
  let ?t = "dir s ! i0"
  let ?s' = "s\<lparr>heap := (heap s)(?t := b)\<rparr>"
  have ok: "slot_ok h s i" if "i < length (dir s)" for i
    using inv that by (simp add: ht_inv_def)
  have slot: "slot_ok h ?s' i" if i: "i < length (dir s)" for i
  proof (cases "dir s ! i = ?t")
    case False
    then show ?thesis using ok [OF i] by (simp add: slot_ok_def)
  next
    case True
    have "(dir s ! i0 = dir s ! i) =
        (take_bit (b_depth (heap s (dir s ! i0))) i0 = take_bit (b_depth (heap s (dir s ! i0))) i)"
      using ok [OF i0] i by (simp add: slot_ok_def)
    with True depth have "take_bit (b_depth b) i0 = take_bit (b_depth b) i"
      by simp
    with keys have k: "\<forall>item \<in> set (b_list b).
        take_bit (b_depth b) (h (fst item)) = take_bit (b_depth b) i"
      by simp
    have d: "b_depth b = b_depth (heap s (dir s ! i))"
      using depth True by simp
    show ?thesis
      using ok [OF i] True k size len d by (simp add: slot_ok_def)
  qed
  show ?thesis
    unfolding ht_inv_def using inv slot by (simp add: ht_inv_def)
qed

lemma assign_value_Some:
  "assign_value key val xs = Some ys \<Longrightarrow> map fst ys = map fst xs"
  by (induction xs arbitrary: ys) (auto split: if_splits)

lemma ht_inv_Insert:
  assumes inv: "ht_inv h s" and ins: "Insert h s key val = Some (Inr s')"
  shows "ht_inv h s'"
proof -
  from ins obtain r where loop: "split_loop h s key = Some r"
    by (cases "split_loop h s key") (simp_all add: Insert_def)
  from split_loop_inv [OF loop inv] obtain s1 where r: "r = Inr s1" and inv1: "ht_inv h s1"
    and room: "\<not> IsFull (heap s1 (dir s1 ! IndexOf h s1 key))"
    by blast
  let ?i = "IndexOf h s1 key"
  let ?t = "dir s1 ! ?i"
  let ?b = "heap s1 ?t"
  have idx: "?i < length (dir s1)" using inv1 by (rule IndexOf_less)
  have ok: "slot_ok h s1 ?i" using inv1 idx by (simp add: ht_inv_def)
  have d: "b_depth ?b \<le> global_depth s1" using ok by (simp add: slot_ok_def)
  have keyfits: "take_bit (b_depth ?b) (h key) = take_bit (b_depth ?b) ?i"
    using d by (simp add: IndexOf_take_bit min_absorb1)
  show ?thesis
  proof (cases "assign_value key val (b_list ?b)")
    case (Some items)
    from assign_value_Some [OF Some] have fsts: "map fst items = map fst (b_list ?b)" .
    then have "length items = length (b_list ?b)" by (metis length_map)
    moreover have "fst ` set items = fst ` set (b_list ?b)"
      using fsts by (metis set_map)
    ultimately have li: "length items \<le> bucket_size s1"
      and fi: "fst ` set items = fst ` set (b_list ?b)"
      using ok by (simp_all add: slot_ok_def)
    have ki: "\<forall>item \<in> set items. take_bit (b_depth ?b) (h (fst item)) = take_bit (b_depth ?b) ?i"
    proof
      fix item assume "item \<in> set items"
      then have "fst item \<in> fst ` set (b_list ?b)" using fi by blast
      then obtain item' where "item' \<in> set (b_list ?b)" and "fst item' = fst item" by auto
      with ok show "take_bit (b_depth ?b) (h (fst item)) = take_bit (b_depth ?b) ?i"
        by (auto simp: slot_ok_def)
    qed
    have "ht_inv h (s1\<lparr>heap := (heap s1)(?t := ?b\<lparr>b_list := items\<rparr>)\<rparr>)"
    proof (rule ht_inv_heap_update [OF inv1 idx])
      show "b_depth (?b\<lparr>b_list := items\<rparr>) = b_depth ?b" by simp
      show "b_size (?b\<lparr>b_list := items\<rparr>) = bucket_size s1"
        using ok by (simp add: slot_ok_def)
      show "length (b_list (?b\<lparr>b_list := items\<rparr>)) \<le> bucket_size s1"
        using li by simp
      show "\<forall>item \<in> set (b_list (?b\<lparr>b_list := items\<rparr>)).
          take_bit (b_depth (?b\<lparr>b_list := items\<rparr>)) (h (fst item)) =
          take_bit (b_depth (?b\<lparr>b_list := items\<rparr>)) ?i"
        using ki by simp
    qed
    moreover have "s' = s1\<lparr>heap := (heap s1)(?t := ?b\<lparr>b_list := items\<rparr>)\<rparr>"
      using ins loop r idx Some by (simp add: Insert_def dir_at_def Let_def)
    ultimately show ?thesis by simp
  next
    case None
    let ?b' = "?b\<lparr>b_list := b_list ?b @ [(key, val)]\<rparr>"
    have b': "fst (bucket_Insert ?b key val) = ?b'"
      using room by (simp add: bucket_Insert_def)
    have lt: "length (b_list ?b) < bucket_size s1"
      using ok room by (simp add: slot_ok_def IsFull_def)
    have "ht_inv h (s1\<lparr>heap := (heap s1)(?t := ?b')\<rparr>)"
    proof (rule ht_inv_heap_update [OF inv1 idx])
      show "b_depth ?b' = b_depth ?b" by simp
      show "b_size ?b' = bucket_size s1"
        using ok by (simp add: slot_ok_def)
      show "length (b_list ?b') \<le> bucket_size s1"
        using lt by simp
      show "\<forall>item \<in> set (b_list ?b').
          take_bit (b_depth ?b') (h (fst item)) = take_bit (b_depth ?b') ?i"
        using ok keyfits by (simp add: slot_ok_def)
    qed
    moreover have "s' = s1\<lparr>heap := (heap s1)(?t := ?b')\<rparr>"
      using ins loop r idx None b' by (simp add: Insert_def dir_at_def Let_def)
    ultimately show ?thesis by simp
  qed
qed

lemma ht_inv_Remove:
  assumes inv: "ht_inv h s" and rm: "Remove_key h s key = Inr (s', found)"
  shows "ht_inv h s'"
proof -
  let ?i = "IndexOf h s key"
  let ?t = "dir s ! ?i"
  let ?b = "heap s ?t"
  have idx: "?i < length (dir s)" using inv by (rule IndexOf_less)
  have ok: "slot_ok h s ?i" using inv idx by (simp add: ht_inv_def)
  obtain b fnd where br: "bucket_Remove ?b key = (b, fnd)"
    by (cases "bucket_Remove ?b key")
  then have sub: "set (b_list b) \<subseteq> set (b_list ?b)" and len: "length (b_list b) \<le> length (b_list ?b)"
    and same: "b_depth b = b_depth ?b" "b_size b = b_size ?b"
    by (auto simp: bucket_Remove_def split: option.splits)
  have "ht_inv h (s\<lparr>heap := (heap s)(?t := b)\<rparr>)"
  proof (rule ht_inv_heap_update [OF inv idx])
    show "b_depth b = b_depth ?b" by (rule same)
    show "b_size b = bucket_size s"
      using ok same by (simp add: slot_ok_def)
    show "length (b_list b) \<le> bucket_size s"
      using ok len by (simp add: slot_ok_def)
    show "\<forall>item \<in> set (b_list b). take_bit (b_depth b) (h (fst item)) = take_bit (b_depth b) ?i"
      using ok sub same by (auto simp: slot_ok_def)
  qed
  moreover have "s' = s\<lparr>heap := (heap s)(?t := b)\<rparr>"
    using rm idx br by (simp add: Remove_key_def dir_at_def)
  ultimately show ?thesis by simp
qed

lemma Find_state: "Find h s key = Inr (s', r) \<Longrightarrow> s' = s"
  by (auto simp: Find_def split: sum.splits)

lemma ht_inv_new: "ht_inv h (ExtendibleHashTable bs)"
  by (simp add: ht_inv_def slot_ok_def ExtendibleHashTable_def Bucket_def)

lemma reachable_table_inv: "reachable_table h bs s \<Longrightarrow> ht_inv h s"
proof (induction rule: reachable_table.induct)
  case reach_new
  show ?case by (rule ht_inv_new)
next
  case (reach_Insert s key val s')
  then show ?case by (blast intro: ht_inv_Insert)
next
  case (reach_Find s key s' r)
  then show ?case by (auto dest: Find_state)
next
  case (reach_Remove s key s' found)
  then show ?case by (blast intro: ht_inv_Remove)
qed

subsection \<open>Two concrete tables\<close>

text \<open>
  With bucket size 1 and the identity as hash function: the table after \<open>Insert(0, 10)\<close>,
  and the table after \<open>Insert(1, 11)\<close> on it, which splits the only bucket.
\<close>

definition two_buckets :: "(nat, nat) table" where
  "two_buckets =
     \<lparr>global_depth = 1, bucket_size = 1, num_buckets = 2, dir = [1, 2],
      heap = (\<lambda>_. Bucket 1 0)
        (0 := \<lparr>b_size = 1, b_depth = 0, b_list = [(0, 10)]\<rparr>,
         1 := \<lparr>b_size = 1, b_depth = 1, b_list = [(0, 10)]\<rparr>,
         2 := \<lparr>b_size = 1, b_depth = 1, b_list = [(1, 11)]\<rparr>),
      next_addr = 3\<rparr>"

definition one_entry :: "(nat, nat) table" where
  "one_entry =
     \<lparr>global_depth = 0, bucket_size = 1, num_buckets = 1, dir = [0],
      heap = (\<lambda>_. Bucket 1 0)(0 := \<lparr>b_size = 1, b_depth = 0, b_list = [(0, 10)]\<rparr>),
      next_addr = 1\<rparr>"

lemma one_entry_Insert: "Insert id (ExtendibleHashTable 1) 0 10 = Some (Inr one_entry)"
  by (simp add: Insert_def split_loop.simps IndexOf_def ExtendibleHashTable_def IsFull_def Bucket_def
      dir_at_def bucket_Insert_def one_entry_def)

lemma two_buckets_Insert: "Insert id one_entry 1 11 = Some (Inr two_buckets)"
  by (simp add: Insert_def split_loop.simps IndexOf_def IsFull_def Bucket_def
      dir_at_def bucket_Insert_def one_entry_def two_buckets_def split_bucket_def
      grow_directory_def redistribute_bucket_def rewire_def Let_def numeral_2_eq_2)


lemma two_buckets_reachable: "reachable_table id 1 two_buckets"
  using reach_Insert [OF reach_Insert [OF reach_new one_entry_Insert] two_buckets_Insert] .

subsection \<open>The directory invariant\<close>

text \<open>
  Claim C8.  In every table reached from a new table by calls of \<open>Insert\<close>, \<open>Find\<close> and
  \<open>Remove\<close>, the directory has \<open>2 ^ global_depth\<close> slots, and two slots \<open>i\<close> and \<open>j\<close>
  point to the same bucket if and only if \<open>i\<close> and \<open>j\<close> agree on their low
  \<open>local_depth(dir[i])\<close> bits.
\<close>

theorem directory_invariant:
  assumes "reachable_table h bs s"
  shows "length (dir s) = 2 ^ global_depth s \<and>
         (\<forall>i < length (dir s). \<forall>j < length (dir s).
            (dir s ! i = dir s ! j) =
            (take_bit (b_depth (heap s (dir s ! i))) i = take_bit (b_depth (heap s (dir s ! i))) j))"
  using reachable_table_inv [OF assms] by (simp add: ht_inv_def slot_ok_def)

theorem directory_invariant_witness:
  "reachable_table id 1 two_buckets \<and>
   length (dir two_buckets) = 2 ^ global_depth two_buckets \<and>
   length (dir two_buckets) = 2 \<and>
   (dir two_buckets ! 0 = dir two_buckets ! 1) =
     (take_bit (b_depth (heap two_buckets (dir two_buckets ! 0))) (0::nat) =
      take_bit (b_depth (heap two_buckets (dir two_buckets ! 0))) (1::nat)) \<and>
   dir two_buckets ! 0 \<noteq> dir two_buckets ! 1"
proof -
  have len: "length (dir two_buckets) = 2" by (simp add: two_buckets_def)
  from directory_invariant [OF two_buckets_reachable] len
  have "length (dir two_buckets) = 2 ^ global_depth two_buckets"
    and "(dir two_buckets ! 0 = dir two_buckets ! 1) =
     (take_bit (b_depth (heap two_buckets (dir two_buckets ! 0))) (0::nat) =
      take_bit (b_depth (heap two_buckets (dir two_buckets ! 0))) (1::nat))"
    by simp_all
  moreover have "dir two_buckets ! 0 \<noteq> dir two_buckets ! 1"
    by (simp add: two_buckets_def)
  ultimately show ?thesis using two_buckets_reachable len by blast
qed

subsection \<open>\<open>Find\<close> changes nothing\<close>

text \<open>
  Claim C10.  \<open>Find\<close> leaves the table as it is: the table it returns is the table it was
  given, with the same directory, global depth, bucket count and bucket lists, whether
  the key is found or not; and on a reachable table \<open>Find\<close> does return.
\<close>

theorem Find_leaves_table_unchanged:
  "(\<forall>s' r. Find h s key = Inr (s', r) \<longrightarrow>
      s' = s \<and> dir s' = dir s \<and> global_depth s' = global_depth s \<and>
      num_buckets s' = num_buckets s \<and> (\<forall>a. b_list (heap s' a) = b_list (heap s a))) \<and>
   (reachable_table h bs s \<longrightarrow>
      Find h s key = Inr (s, bucket_Find (heap s (dir s ! IndexOf h s key)) key))"
proof -
  have "Find h s key = Inr (s, bucket_Find (heap s (dir s ! IndexOf h s key)) key)"
    if "reachable_table h bs s"
    using IndexOf_less [OF reachable_table_inv [OF that], of key]
    by (simp add: Find_def dir_at_def)
  then show ?thesis by (auto dest: Find_state)
qed

theorem Find_leaves_table_unchanged_witness:
  "reachable_table id 1 two_buckets \<and>
   Find id two_buckets 0 = Inr (two_buckets, Some 10) \<and>
   Find id two_buckets 7 = Inr (two_buckets, None)"
proof -
  from Find_leaves_table_unchanged [of id two_buckets 0 1] two_buckets_reachable
  have "Find id two_buckets 0 =
      Inr (two_buckets, bucket_Find (heap two_buckets (dir two_buckets ! IndexOf id two_buckets 0)) 0)"
    by blast
  moreover have "bucket_Find (heap two_buckets (dir two_buckets ! IndexOf id two_buckets 0)) 0 = Some 10"
    by (simp add: two_buckets_def IndexOf_def bucket_Find_def)
  moreover from Find_leaves_table_unchanged [of id two_buckets 7 1] two_buckets_reachable
  have "Find id two_buckets 7 =
      Inr (two_buckets, bucket_Find (heap two_buckets (dir two_buckets ! IndexOf id two_buckets 7)) 7)"
    by blast
  moreover have "bucket_Find (heap two_buckets (dir two_buckets ! IndexOf id two_buckets 7)) 7 = None"
    by (simp add: two_buckets_def IndexOf_def bucket_Find_def)
  ultimately show ?thesis using two_buckets_reachable by simp
qed

subsection \<open>A split keeps the entries\<close>

text \<open>The entries stored in the table: those of every bucket the directory points to.\<close>

definition entries :: "('k, 'v) table \<Rightarrow> ('k \<times> 'v) multiset" where
  "entries s = (\<Sum>a \<in> set (dir s). mset (b_list (heap s a)))"

text \<open>What \<open>Find\<close> reports for a key.\<close>

definition lookup :: "('k \<Rightarrow> nat) \<Rightarrow> ('k, 'v) table \<Rightarrow> 'k \<Rightarrow> 'v option" where
  "lookup h s key = bucket_Find (heap s (dir s ! IndexOf h s key)) key"

lemma Find_lookup: "ht_inv h s \<Longrightarrow> Find h s key = Inr (s, lookup h s key)"
  using IndexOf_less [of h s key] by (simp add: Find_def dir_at_def lookup_def)

lemma find_filter: "(\<And>x. P x \<Longrightarrow> Q x) \<Longrightarrow> find P (filter Q xs) = find P xs"
  by (induction xs) auto

lemma lookup_grow:
  assumes inv: "ht_inv h s"
  shows "lookup h (grow_directory s t) key = lookup h s key"
proof (cases "b_depth (heap s t) = global_depth s")
  case False
  then show ?thesis by (simp add: grow_directory_def lookup_def IndexOf_take_bit)
next
  case True
  let ?n = "global_depth s"
  have len: "length (dir s) = 2 ^ ?n" using inv by (simp add: ht_inv_def)
  have "take_bit (Suc ?n) (h key) < length (dir s @ dir s)"
    using len take_bit_nat_less_exp [of "Suc ?n" "h key"] by simp
  from nth_doubled [OF len this]
  have "(dir s @ dir s) ! take_bit (Suc ?n) (h key) = dir s ! take_bit ?n (h key)"
    by (simp add: min_absorb1)
  with True show ?thesis by (simp add: grow_directory_def lookup_def IndexOf_take_bit)
qed

lemma lookup_redistribute:
  assumes inv: "ht_inv h s" and i0: "i0 < length (dir s)" and t: "dir s ! i0 = t"
    and deep: "b_depth (heap s t) < global_depth s"
  shows "lookup h (redistribute_bucket h s t) key = lookup h s key"
proof -
  let ?d = "b_depth (heap s t)"
  let ?i = "take_bit (global_depth s) (h key)"
  have ok: "slot_ok h s i" if "i < length (dir s)" for i
    using inv that by (simp add: ht_inv_def)
  have cap: "length (b_list (heap s t)) \<le> bucket_size s"
    using ok [OF i0] t by (simp add: slot_ok_def)
  have i: "?i < length (dir s)" using inv by (simp add: ht_inv_def)
  have old: "dir s ! ?i < next_addr s" using ok [OF i] by (simp add: slot_ok_def)
  have bit: "bit ?i ?d = bit (h key) ?d"
    using deep by (simp add: bit_take_bit_iff)
  have nth: "rewire t (2 ^ ?d) (next_addr s) (Suc (next_addr s)) (dir s) ! ?i =
      (if dir s ! ?i = t then (if bit ?i ?d then Suc (next_addr s) else next_addr s) else dir s ! ?i)"
    using i by (rule rewire_nth)
  show ?thesis
  proof (cases "dir s ! ?i = t")
    case False
    with old nth show ?thesis
      by (simp add: redistribute_bucket_eq [OF cap] lookup_def IndexOf_take_bit)
  next
    case True
    show ?thesis
    proof (cases "bit (h key) ?d")
      case hi: True
      have "find (\<lambda>item. fst item = key) (filter (\<lambda>it. bit (h (fst it)) ?d) (b_list (heap s t))) =
          find (\<lambda>item. fst item = key) (b_list (heap s t))"
        using hi by (intro find_filter) simp
      with True hi bit nth show ?thesis
        by (simp add: redistribute_bucket_eq [OF cap] lookup_def IndexOf_take_bit
            bucket_Find_def high_half_def)
    next
      case lo: False
      have "find (\<lambda>item. fst item = key) (filter (\<lambda>it. \<not> bit (h (fst it)) ?d) (b_list (heap s t))) =
          find (\<lambda>item. fst item = key) (b_list (heap s t))"
        using lo by (intro find_filter) simp
      with True lo bit nth show ?thesis
        by (simp add: redistribute_bucket_eq [OF cap] lookup_def IndexOf_take_bit
            bucket_Find_def low_half_def)
    qed
  qed
qed

lemma split_facts:
  assumes inv: "ht_inv h s" and i0: "i0 < length (dir s)"
  shows "ht_inv h (grow_directory s (dir s ! i0))"
    and "i0 < length (dir (grow_directory s (dir s ! i0)))"
    and "dir (grow_directory s (dir s ! i0)) ! i0 = dir s ! i0"
    and "b_depth (heap (grow_directory s (dir s ! i0)) (dir s ! i0)) <
         global_depth (grow_directory s (dir s ! i0))"
proof -
  let ?t = "dir s ! i0"
  have "slot_ok h s i0" using inv i0 by (simp add: ht_inv_def)
  then have "b_depth (heap s ?t) \<le> global_depth s" by (simp add: slot_ok_def)
  then show "b_depth (heap (grow_directory s ?t) ?t) < global_depth (grow_directory s ?t)"
    using grow_directory_deep [of s ?t] by simp
  show "i0 < length (dir (grow_directory s ?t))"
    using i0 grow_directory_length [of s ?t] by simp
  show "dir (grow_directory s ?t) ! i0 = ?t"
    using i0 by (rule grow_directory_nth)
  show "ht_inv h (grow_directory s ?t)" by (rule ht_inv_grow [OF inv])
qed

lemma lookup_split:
  assumes inv: "ht_inv h s" and i0: "i0 < length (dir s)"
  shows "lookup h (split_bucket h s (dir s ! i0)) key = lookup h s key"
  unfolding split_bucket_def
  using lookup_redistribute [OF split_facts [OF inv i0]] lookup_grow [OF inv]
  by simp

lemma set_rewire:
  assumes inv: "ht_inv h s" and i0: "i0 < length (dir s)" and t: "dir s ! i0 = t"
    and deep: "b_depth (heap s t) < global_depth s"
  shows "set (rewire t (2 ^ b_depth (heap s t)) a0 a1 (dir s)) = (set (dir s) - {t}) \<union> {a0, a1}"
proof -
  let ?d = "b_depth (heap s t)"
  let ?r = "rewire t (2 ^ ?d) a0 a1 (dir s)"
  let ?lo = "take_bit ?d i0"
  let ?hi = "take_bit ?d i0 + 2 ^ ?d"
  have len: "length (dir s) = 2 ^ global_depth s" using inv by (simp add: ht_inv_def)
  have ok: "slot_ok h s i0" using inv i0 by (simp add: ht_inv_def)
  have nth: "?r ! i = (if dir s ! i = t then (if bit i ?d then a1 else a0) else dir s ! i)"
    if "i < length (dir s)" for i
    using that by (rule rewire_nth)
  have pow: "(2::nat) ^ Suc ?d \<le> 2 ^ global_depth s"
    using deep by (intro power_increasing) simp_all
  have lo_lt: "?lo < 2 ^ ?d" by (rule take_bit_nat_less_exp)
  have hi_len: "?hi < length (dir s)"
    using lo_lt pow unfolding len power_Suc by linarith
  have lo_len: "?lo < length (dir s)"
    using lo_lt pow unfolding len power_Suc by linarith
  have pairs: "(dir s ! i0 = dir s ! j) = (take_bit ?d i0 = take_bit ?d j)"
    if "j < length (dir s)" for j
    using ok that t by (simp add: slot_ok_def)
  have same_bucket: "dir s ! j = t" if "j < length (dir s)" "take_bit ?d j = take_bit ?d i0" for j
    using pairs [OF that(1)] that(2) t by metis
  have "take_bit ?d ?hi = take_bit ?d i0"
    by (simp add: take_bit_nat_def)
  then have hi_t: "dir s ! ?hi = t"
    using hi_len by (intro same_bucket)
  have lo_t: "dir s ! ?lo = t"
    using lo_len by (intro same_bucket) simp_all
  have "?lo div 2 ^ ?d = 0" using lo_lt by (rule div_less)
  moreover have "?hi div 2 ^ ?d = ?lo div 2 ^ ?d + 1" by (rule div_add_self2) simp
  ultimately have "?hi div 2 ^ ?d = 1" by (simp only:)
  then have hi_bit: "bit ?hi ?d" by (simp add: bit_iff_odd)
  have lo_bit: "\<not> bit ?lo ?d" by (simp add: bit_take_bit_iff)
  have "?r ! ?hi = a1" using nth [OF hi_len] hi_t hi_bit by simp
  then have a1: "a1 \<in> set ?r" using hi_len by (metis nth_mem rewire_length)
  have "?r ! ?lo = a0" using nth [OF lo_len] lo_t lo_bit by simp
  then have a0: "a0 \<in> set ?r" using lo_len by (metis nth_mem rewire_length)
  have rest: "x \<in> set ?r" if "x \<in> set (dir s)" "x \<noteq> t" for x
  proof -
    from that(1) obtain i where i: "i < length (dir s)" and x: "dir s ! i = x"
      by (auto simp: in_set_conv_nth)
    with nth [OF i] that(2) have "?r ! i = x" by simp
    with i show ?thesis by (metis nth_mem rewire_length)
  qed
  have sub: "x \<in> (set (dir s) - {t}) \<union> {a0, a1}" if "x \<in> set ?r" for x
  proof -
    from that obtain i where i: "i < length (dir s)" and x: "?r ! i = x"
      by (auto simp: in_set_conv_nth)
    with nth [OF i] show ?thesis by (auto split: if_splits)
  qed
  show ?thesis using a0 a1 rest sub by blast
qed

lemma entries_grow: "entries (grow_directory s t) = entries s"
  by (simp add: entries_def grow_directory_def)

lemma entries_redistribute:
  assumes inv: "ht_inv h s" and i0: "i0 < length (dir s)" and t: "dir s ! i0 = t"
    and deep: "b_depth (heap s t) < global_depth s"
  shows "entries (redistribute_bucket h s t) = entries s"
proof -
  let ?lo = "next_addr s"
  let ?hi = "Suc (next_addr s)"
  let ?rest = "set (dir s) - {t}"
  let ?heap = "(heap s)(?lo := low_half h s t, ?hi := high_half h s t)"
  have ok: "slot_ok h s i" if "i < length (dir s)" for i
    using inv that by (simp add: ht_inv_def)
  have cap: "length (b_list (heap s t)) \<le> bucket_size s"
    using ok [OF i0] t by (simp add: slot_ok_def)
  have old: "a < ?lo" if "a \<in> set (dir s)" for a
    using that ok by (auto simp: in_set_conv_nth slot_ok_def)
  have fresh: "?lo \<notin> ?rest" "?hi \<notin> ?rest"
    using old by fastforce+
  have t_in: "t \<in> set (dir s)" using i0 t by (metis nth_mem)
  have same: "(\<Sum>a \<in> ?rest. mset (b_list (?heap a))) = (\<Sum>a \<in> ?rest. mset (b_list (heap s a)))"
    using fresh by (intro sum.cong) auto
  have halves: "mset (b_list (low_half h s t)) + mset (b_list (high_half h s t)) =
      mset (b_list (heap s t))"
    by (simp add: low_half_def high_half_def add.commute)
  have "entries (redistribute_bucket h s t) =
      (\<Sum>a \<in> ?rest \<union> {?lo, ?hi}. mset (b_list (?heap a)))"
    by (simp add: entries_def redistribute_bucket_eq [OF cap] set_rewire [OF inv i0 t deep])
  also have "\<dots> = (\<Sum>a \<in> ?rest. mset (b_list (?heap a))) + (\<Sum>a \<in> {?lo, ?hi}. mset (b_list (?heap a)))"
    using fresh by (intro sum.union_disjoint) auto
  also have "\<dots> = (\<Sum>a \<in> ?rest. mset (b_list (heap s a))) + mset (b_list (heap s t))"
    using same halves by simp
  also have "\<dots> = entries s"
    using t_in by (simp add: entries_def sum.remove [of "set (dir s)" t] add.commute)
  finally show ?thesis .
qed

lemma entries_split:
  assumes inv: "ht_inv h s" and i0: "i0 < length (dir s)"
  shows "entries (split_bucket h s (dir s ! i0)) = entries s"
  unfolding split_bucket_def
  using entries_redistribute [OF split_facts [OF inv i0]] entries_grow [of s "dir s ! i0"]
  by simp

lemma split_bucket_halves:
  assumes inv: "ht_inv h s" and i0: "i0 < length (dir s)"
  shows "heap (split_bucket h s (dir s ! i0)) (next_addr s) = low_half h s (dir s ! i0)"
    and "heap (split_bucket h s (dir s ! i0)) (next_addr s + 1) = high_half h s (dir s ! i0)"
    and "set (dir (split_bucket h s (dir s ! i0))) =
         (set (dir s) - {dir s ! i0}) \<union> {next_addr s, next_addr s + 1}"
proof -
  let ?t = "dir s ! i0"
  let ?s1 = "grow_directory s ?t"
  note f = split_facts [OF inv i0]
  have ok: "slot_ok h s i0" using inv i0 by (simp add: ht_inv_def)
  have s1: "next_addr ?s1 = next_addr s" "bucket_size ?s1 = bucket_size s" "set (dir ?s1) = set (dir s)"
    by (simp_all add: grow_directory_def)
  have cap: "length (b_list (heap ?s1 ?t)) \<le> bucket_size ?s1"
    using ok by (simp add: slot_ok_def s1)
  have lh: "low_half h ?s1 ?t = low_half h s ?t" "high_half h ?s1 ?t = high_half h s ?t"
    by (simp_all add: low_half_def high_half_def s1)
  show "heap (split_bucket h s ?t) (next_addr s) = low_half h s ?t"
    by (simp add: split_bucket_def redistribute_bucket_eq [OF cap] s1 lh)
  show "heap (split_bucket h s ?t) (next_addr s + 1) = high_half h s ?t"
    by (simp add: split_bucket_def redistribute_bucket_eq [OF cap] s1 lh)
  show "set (dir (split_bucket h s ?t)) = (set (dir s) - {?t}) \<union> {next_addr s, next_addr s + 1}"
    using set_rewire [OF f, of "next_addr s" "Suc (next_addr s)"]
    by (simp add: split_bucket_def redistribute_bucket_eq [OF cap] s1)
qed

text \<open>
  The tables at the head of the loop of \<open>Insert(key, _)\<close>, called on a reachable table:
  the table \<open>Insert\<close> was called on, and the table after each split that the loop performs.
\<close>

inductive split_state :: "('k \<Rightarrow> nat) \<Rightarrow> nat \<Rightarrow> 'k \<Rightarrow> ('k, 'v) table \<Rightarrow> bool"
  for h :: "'k \<Rightarrow> nat" and bucket_size0 :: nat and key :: 'k where
  loop_entry: "reachable_table h bucket_size0 s \<Longrightarrow> split_state h bucket_size0 key s"
| loop_again: "split_state h bucket_size0 key s \<Longrightarrow> IndexOf h s key < length (dir s) \<Longrightarrow>
     IsFull (heap s (dir s ! IndexOf h s key)) \<Longrightarrow>
     split_state h bucket_size0 key (split_bucket h s (dir s ! IndexOf h s key))"

lemma split_state_inv: "split_state h bs key s \<Longrightarrow> ht_inv h s"
  by (induction rule: split_state.induct) (auto intro: reachable_table_inv ht_inv_split)

text \<open>
  Claim C7.  Every split that the loop of \<open>Insert\<close> performs keeps the multiset of the
  entries stored in the table.  The list of the first new bucket is the old bucket's list
  filtered by \<open>(hash & (1 << old_local_depth)) == 0\<close>, the list of the second one is the
  rest, so the two lists together are the old list, nothing lost and nothing twice; the
  directory points to the two new buckets in place of the old one; and \<open>Find\<close> returns for
  every key what it returned before the split.
\<close>

theorem split_preserves_entries:
  assumes st: "split_state h bs key s" and full: "IsFull (heap s (dir s ! IndexOf h s key))"
  shows "let target_bucket = dir s ! IndexOf h s key;
             s' = split_bucket h s target_bucket;
             bit_mask = push_bit (b_depth (heap s target_bucket)) 1;
             bucket_0 = heap s' (next_addr s);
             bucket_1 = heap s' (next_addr s + 1)
         in entries s' = entries s \<and>
            b_list bucket_0 = filter (\<lambda>item. h (fst item) AND bit_mask = 0) (b_list (heap s target_bucket)) \<and>
            b_list bucket_1 = filter (\<lambda>item. h (fst item) AND bit_mask \<noteq> 0) (b_list (heap s target_bucket)) \<and>
            mset (b_list bucket_0) + mset (b_list bucket_1) = mset (b_list (heap s target_bucket)) \<and>
            set (dir s') = (set (dir s) - {target_bucket}) \<union> {next_addr s, next_addr s + 1} \<and>
            (\<forall>k. Find h s k = Inr (s, lookup h s k) \<and> Find h s' k = Inr (s', lookup h s k))"
proof -
  let ?t = "dir s ! IndexOf h s key"
  let ?s' = "split_bucket h s ?t"
  have inv: "ht_inv h s" using st by (rule split_state_inv)
  have idx: "IndexOf h s key < length (dir s)" using inv by (rule IndexOf_less)
  have inv': "ht_inv h ?s'" using inv idx by (rule ht_inv_split)
  note halves = split_bucket_halves [OF inv idx]
  have lo: "b_list (heap ?s' (next_addr s)) =
      filter (\<lambda>item. h (fst item) AND push_bit (b_depth (heap s ?t)) 1 = 0) (b_list (heap s ?t))"
    using halves(1) by (simp add: low_half_def and_exp_eq_0_iff_not_bit)
  have hi: "b_list (heap ?s' (next_addr s + 1)) =
      filter (\<lambda>item. h (fst item) AND push_bit (b_depth (heap s ?t)) 1 \<noteq> 0) (b_list (heap s ?t))"
    using halves(2) by (simp add: high_half_def and_exp_eq_0_iff_not_bit)
  have both: "mset (b_list (heap ?s' (next_addr s))) + mset (b_list (heap ?s' (next_addr s + 1))) =
      mset (b_list (heap s ?t))"
    unfolding lo hi by simp
  have finds: "Find h s k = Inr (s, lookup h s k) \<and> Find h ?s' k = Inr (?s', lookup h s k)" for k
    using Find_lookup [OF inv, of k] Find_lookup [OF inv', of k] lookup_split [OF inv idx, of k]
    by simp
  show ?thesis
    unfolding Let_def
    using entries_split [OF inv idx] lo hi both halves(3) finds by blast
qed

lemma one_entry_reachable: "reachable_table id 1 one_entry"
  using reach_Insert [OF reach_new one_entry_Insert] .

theorem split_preserves_entries_witness:
  "split_state id 1 1 one_entry \<and>
   IsFull (heap one_entry (dir one_entry ! IndexOf id one_entry 1)) \<and>
   entries (split_bucket id one_entry 0) = {#(0, 10)#} \<and>
   b_list (heap (split_bucket id one_entry 0) 1) = [(0, 10)] \<and>
   b_list (heap (split_bucket id one_entry 0) 2) = [] \<and>
   set (dir (split_bucket id one_entry 0)) = {1, 2} \<and>
   Find id (split_bucket id one_entry 0) 0 = Inr (split_bucket id one_entry 0, Some 10)"
proof -
  have st: "split_state id 1 1 one_entry"
    using one_entry_reachable by (rule loop_entry)
  have t: "dir one_entry ! IndexOf id one_entry 1 = 0"
    by (simp add: one_entry_def IndexOf_def)
  have full: "IsFull (heap one_entry (dir one_entry ! IndexOf id one_entry 1))"
    unfolding t by (simp add: one_entry_def IsFull_def)
  have e: "entries one_entry = {#(0, 10)#}"
    by (simp add: entries_def one_entry_def)
  have l: "lookup id one_entry 0 = Some 10"
    by (simp add: lookup_def one_entry_def IndexOf_def bucket_Find_def)
  have f: "b_list (heap one_entry 0) = [(0, 10)]" "next_addr one_entry = 1" "set (dir one_entry) = {0}"
    "b_depth (heap one_entry 0) = 0"
    by (simp_all add: one_entry_def)
  from split_preserves_entries [OF st full]
  have "entries (split_bucket id one_entry 0) = entries one_entry \<and>
     b_list (heap (split_bucket id one_entry 0) 1) =
       filter (\<lambda>item. id (fst item) AND push_bit 0 1 = 0) [(0, 10)] \<and>
     b_list (heap (split_bucket id one_entry 0) 2) =
       filter (\<lambda>item. id (fst item) AND push_bit 0 1 \<noteq> 0) [(0, 10)] \<and>
     set (dir (split_bucket id one_entry 0)) = ({0} - {0}) \<union> {1, 2} \<and>
     Find id (split_bucket id one_entry 0) 0 = Inr (split_bucket id one_entry 0, lookup id one_entry 0)"
    unfolding Let_def t f by (simp add: numeral_2_eq_2)
  then show ?thesis using st full e l by simp
qed

subsection \<open>The loop of \<open>Insert\<close> need not end\<close>

text \<open>The bucket that \<open>dir_[IndexOf(key)]\<close> points to.\<close>

definition target :: "('k \<Rightarrow> nat) \<Rightarrow> ('k, 'v) table \<Rightarrow> 'k \<Rightarrow> ('k, 'v) bucket" where
  "target h s key = heap s (dir s ! IndexOf h s key)"

lemma target_split:
  assumes inv: "ht_inv h s"
  shows "target h (split_bucket h s (dir s ! IndexOf h s key)) key =
           (if bit (h key) (b_depth (target h s key))
            then high_half h s (dir s ! IndexOf h s key)
            else low_half h s (dir s ! IndexOf h s key))"
proof -
  let ?j = "IndexOf h s key"
  let ?t = "dir s ! ?j"
  let ?s1 = "grow_directory s ?t"
  let ?d = "b_depth (heap s ?t)"
  let ?i = "take_bit (global_depth ?s1) (h key)"
  have i0: "?j < length (dir s)" using inv by (rule IndexOf_less)
  note f = split_facts [OF inv i0]
  have s1: "next_addr ?s1 = next_addr s" "bucket_size ?s1 = bucket_size s"
    by (simp_all add: grow_directory_def)
  have ok: "slot_ok h s ?j" using inv i0 by (simp add: ht_inv_def)
  have cap: "length (b_list (heap ?s1 ?t)) \<le> bucket_size ?s1"
    using ok by (simp add: slot_ok_def s1)
  have lh: "low_half h ?s1 ?t = low_half h s ?t" "high_half h ?s1 ?t = high_half h s ?t"
    by (simp_all add: low_half_def high_half_def s1)
  have i: "?i < length (dir ?s1)" using f(1) by (simp add: ht_inv_def)
  have at: "dir ?s1 ! ?i = ?t"
  proof (cases "b_depth (heap s ?t) = global_depth s")
    case False
    then show ?thesis by (simp add: grow_directory_def IndexOf_take_bit)
  next
    case True
    let ?n = "global_depth s"
    have len: "length (dir s) = 2 ^ ?n" using inv by (simp add: ht_inv_def)
    have "take_bit (Suc ?n) (h key) < length (dir s @ dir s)"
      using len take_bit_nat_less_exp [of "Suc ?n" "h key"] by simp
    from nth_doubled [OF len this]
    have "(dir s @ dir s) ! take_bit (Suc ?n) (h key) = dir s ! take_bit ?n (h key)"
      by (simp add: min_absorb1)
    with True show ?thesis by (simp add: grow_directory_def IndexOf_take_bit)
  qed
  have bit: "bit ?i ?d = bit (h key) ?d"
    using f(4) by (simp add: bit_take_bit_iff)
  have nth: "rewire ?t (2 ^ ?d) (next_addr s) (Suc (next_addr s)) (dir ?s1) ! ?i =
      (if bit (h key) ?d then Suc (next_addr s) else next_addr s)"
    using rewire_nth [OF i, of ?t ?d "next_addr s" "Suc (next_addr s)"] at bit by simp
  have eq: "split_bucket h s ?t =
      ?s1\<lparr>num_buckets := num_buckets ?s1 + 1,
          dir := rewire ?t (2 ^ ?d) (next_addr s) (Suc (next_addr s)) (dir ?s1),
          heap := (heap s)(next_addr s := low_half h s ?t, Suc (next_addr s) := high_half h s ?t),
          next_addr := next_addr s + 2\<rparr>"
    by (simp add: split_bucket_def redistribute_bucket_eq [OF cap] s1 lh)
  have gd: "global_depth (split_bucket h s ?t) = global_depth ?s1"
    and d': "dir (split_bucket h s ?t) =
      rewire ?t (2 ^ ?d) (next_addr s) (Suc (next_addr s)) (dir ?s1)"
    and h': "heap (split_bucket h s ?t) =
      (heap s)(next_addr s := low_half h s ?t, Suc (next_addr s) := high_half h s ?t)"
    by (simp_all add: eq)
  have idx': "IndexOf h (split_bucket h s ?t) key = ?i"
    using IndexOf_take_bit [of h "split_bucket h s ?t" key] gd by simp
  show ?thesis
    by (simp add: target_def idx' d' h' nth)
qed

text \<open>
  A table in which the target bucket of \<open>key\<close> has capacity 1 and holds the entry of \<open>key\<close>.
\<close>

definition stuck :: "('k \<Rightarrow> nat) \<Rightarrow> 'k \<Rightarrow> 'v \<Rightarrow> ('k, 'v) table \<Rightarrow> bool" where
  "stuck h key val s \<longleftrightarrow>
     ht_inv h s \<and> bucket_size s = 1 \<and> b_list (target h s key) = [(key, val)]"

lemma split_bucket_bucket_size [simp]: "bucket_size (split_bucket h s t) = bucket_size s"
  by (simp add: split_bucket_def redistribute_bucket_def grow_directory_def Let_def split_beta)

lemma stuck_IsFull:
  assumes "stuck h key val s"
  shows "IndexOf h s key < length (dir s)" and "IsFull (heap s (dir s ! IndexOf h s key))"
proof -
  have inv: "ht_inv h s" using assms by (simp add: stuck_def)
  show idx: "IndexOf h s key < length (dir s)" using inv by (rule IndexOf_less)
  have "slot_ok h s (IndexOf h s key)" using inv idx by (simp add: ht_inv_def)
  then have "b_size (heap s (dir s ! IndexOf h s key)) = bucket_size s"
    by (simp add: slot_ok_def)
  with assms show "IsFull (heap s (dir s ! IndexOf h s key))"
    by (simp add: stuck_def target_def IsFull_def)
qed

lemma stuck_split:
  assumes "stuck h key val s"
  shows "stuck h key val (split_bucket h s (dir s ! IndexOf h s key))"
proof -
  have inv: "ht_inv h s" and one: "bucket_size s = 1"
    and items: "b_list (heap s (dir s ! IndexOf h s key)) = [(key, val)]"
    using assms by (simp_all add: stuck_def target_def)
  have idx: "IndexOf h s key < length (dir s)" using inv by (rule IndexOf_less)
  have "b_list (target h (split_bucket h s (dir s ! IndexOf h s key)) key) = [(key, val)]"
    unfolding target_split [OF inv]
    by (simp add: low_half_def high_half_def items target_def)
  then show ?thesis
    using ht_inv_split [OF inv idx] one by (simp add: stuck_def)
qed

lemma stuck_never_returns_aux:
  assumes "split_loop h s key = Some r"
  shows "\<not> stuck h key val s"
proof (rule split_loop.raw_induct [where P = "\<lambda>h s key r. \<not> stuck h key val s", OF _ assms])
  fix loop :: "('a \<Rightarrow> nat) \<Rightarrow> ('a, 'b) table \<Rightarrow> 'a \<Rightarrow> (fault + ('a, 'b) table) option"
    and h s key r
  assume IH: "\<And>h s key r. loop h s key = Some r \<Longrightarrow> \<not> stuck h key val s"
    and body: "(if IndexOf h s key < length (dir s)
        then if IsFull (heap s (dir s ! IndexOf h s key))
             then loop h (split_bucket h s (dir s ! IndexOf h s key)) key
             else Some (Inr s)
        else Some (Inl IndexOutOfRange)) = Some r"
  show "\<not> stuck h key val s"
  proof
    assume st: "stuck h key val s"
    from body stuck_IsFull [OF st]
    have "loop h (split_bucket h s (dir s ! IndexOf h s key)) key = Some r" by simp
    from IH [OF this] stuck_split [OF st] show False by contradiction
  qed
qed

lemma stuck_never_returns: "stuck h key val s \<Longrightarrow> split_loop h s key = None"
  using stuck_never_returns_aux [of h s key _ val] by (cases "split_loop h s key") auto

definition single_key_table :: "'k \<Rightarrow> 'v \<Rightarrow> ('k, 'v) table" where
  "single_key_table key val =
     \<lparr>global_depth = 0, bucket_size = 1, num_buckets = 1, dir = [0],
      heap = (\<lambda>_. Bucket 1 0)(0 := \<lparr>b_size = 1, b_depth = 0, b_list = [(key, val)]\<rparr>),
      next_addr = 1\<rparr>"

lemma single_key_table_stuck: "stuck h key val (single_key_table key val)"
  by (simp add: stuck_def ht_inv_def slot_ok_def single_key_table_def target_def IndexOf_def)

text \<open>
  Claim C9 fails on the code.  On a table with bucket size 1, \<open>Insert(key, val)\<close> stores the
  entry in the only bucket, which is then full.  A second \<open>Insert\<close> of the same key runs the
  loop before it looks for the key: every split moves the entry to the new bucket that is
  the key's target again, that bucket is full again, and the loop never ends.  This holds
  for every hash function, key and values.
\<close>

theorem Insert_existing_key_never_returns:
  "Insert h (ExtendibleHashTable 1) key val = Some (Inr (single_key_table key val)) \<and>
   Insert h (single_key_table key val) key val' = None"
proof
  show "Insert h (ExtendibleHashTable 1) key val = Some (Inr (single_key_table key val))"
    by (simp add: Insert_def split_loop.simps IndexOf_def ExtendibleHashTable_def IsFull_def
        Bucket_def dir_at_def bucket_Insert_def single_key_table_def)
  show "Insert h (single_key_table key val) key val' = None"
    using stuck_never_returns [OF single_key_table_stuck, of h key val]
    by (simp add: Insert_def)
qed

subsection \<open>The entries after \<open>Insert\<close> and \<open>Remove\<close>\<close>

lemma in_entries_iff:
  "x \<in># entries s \<longleftrightarrow> (\<exists>a \<in> set (dir s). x \<in> set (b_list (heap s a)))"
proof -
  have "x \<in># (\<Sum>a \<in> A. mset (b_list (heap s a))) \<longleftrightarrow> (\<exists>a \<in> A. x \<in> set (b_list (heap s a)))"
    if "finite A" for A
    using that by (induction A) auto
  then show ?thesis by (simp add: entries_def)
qed

lemma split_loop_entries_aux:
  assumes "split_loop h s key = Some r"
  shows "ht_inv h s \<longrightarrow> (\<forall>s'. r = Inr s' \<longrightarrow> entries s' = entries s)"
proof (rule split_loop.raw_induct
    [where P = "\<lambda>h s key r. ht_inv h s \<longrightarrow> (\<forall>s'. r = Inr s' \<longrightarrow> entries s' = entries s)",
     OF _ assms])
  fix loop :: "('a \<Rightarrow> nat) \<Rightarrow> ('a, 'b) table \<Rightarrow> 'a \<Rightarrow> (fault + ('a, 'b) table) option"
    and h s key r
  assume IH: "\<And>h s key r. loop h s key = Some r \<Longrightarrow>
      ht_inv h s \<longrightarrow> (\<forall>s'. r = Inr s' \<longrightarrow> entries s' = entries s)"
    and body: "(if IndexOf h s key < length (dir s)
        then if IsFull (heap s (dir s ! IndexOf h s key))
             then loop h (split_bucket h s (dir s ! IndexOf h s key)) key
             else Some (Inr s)
        else Some (Inl IndexOutOfRange)) = Some r"
  show "ht_inv h s \<longrightarrow> (\<forall>s'. r = Inr s' \<longrightarrow> entries s' = entries s)"
  proof
    assume inv: "ht_inv h s"
    have idx: "IndexOf h s key < length (dir s)"
      using inv by (rule IndexOf_less)
    show "\<forall>s'. r = Inr s' \<longrightarrow> entries s' = entries s"
    proof (cases "IsFull (heap s (dir s ! IndexOf h s key))")
      case True
      with body idx have "loop h (split_bucket h s (dir s ! IndexOf h s key)) key = Some r"
        by simp
      from IH [OF this] ht_inv_split [OF inv idx] entries_split [OF inv idx]
      show ?thesis by simp
    next
      case False
      with body idx show ?thesis by auto
    qed
  qed
qed

lemma assign_value_set:
  "assign_value key val xs = Some ys \<Longrightarrow> set ys \<subseteq> set xs \<union> {(key, val)}"
  by (induction xs arbitrary: ys) (auto split: if_splits)

lemma Insert_entries:
  assumes inv: "ht_inv h s" and ins: "Insert h s key val = Some (Inr s')"
    and x: "x \<in># entries s'"
  shows "x \<in># entries s \<or> x = (key, val)"
proof -
  from ins obtain r where loop: "split_loop h s key = Some r"
    by (cases "split_loop h s key") (simp_all add: Insert_def)
  from split_loop_inv [OF loop inv] obtain s1 where r: "r = Inr s1" and inv1: "ht_inv h s1"
    by blast
  have e1: "entries s1 = entries s"
    using split_loop_entries_aux [OF loop] inv r by simp
  let ?t = "dir s1 ! IndexOf h s1 key"
  have idx: "IndexOf h s1 key < length (dir s1)" using inv1 by (rule IndexOf_less)
  then have t: "?t \<in> set (dir s1)" by simp
  define b where "b = (case assign_value key val (b_list (heap s1 ?t)) of
      Some items \<Rightarrow> (heap s1 ?t)\<lparr>b_list := items\<rparr>
    | None \<Rightarrow> fst (bucket_Insert (heap s1 ?t) key val))"
  have s': "s' = s1\<lparr>heap := (heap s1)(?t := b)\<rparr>"
    using ins loop r idx
    by (simp add: Insert_def dir_at_def Let_def b_def split: option.splits)
  have b: "set (b_list b) \<subseteq> set (b_list (heap s1 ?t)) \<union> {(key, val)}"
    using assign_value_set [of key val "b_list (heap s1 ?t)"]
    by (auto simp: b_def bucket_Insert_def split: option.splits if_splits)
  from x obtain a where a: "a \<in> set (dir s1)" and xa: "x \<in> set (b_list (heap s' a))"
    by (auto simp: in_entries_iff s')
  show ?thesis
  proof (cases "a = ?t")
    case True
    with xa b t show ?thesis by (auto simp: s' e1 [symmetric] in_entries_iff)
  next
    case False
    with xa a show ?thesis by (auto simp: s' e1 [symmetric] in_entries_iff)
  qed
qed

lemma Remove_key_entries:
  assumes rm: "Remove_key h s key = Inr (s', found)" and x: "x \<in># entries s'"
  shows "x \<in># entries s"
proof -
  let ?t = "dir s ! IndexOf h s key"
  define b where "b = fst (bucket_Remove (heap s ?t) key)"
  from rm have idx: "IndexOf h s key < length (dir s)"
    by (auto simp: Remove_key_def dir_at_def split: if_splits)
  with rm have s': "s' = s\<lparr>heap := (heap s)(?t := b)\<rparr>"
    by (auto simp: Remove_key_def dir_at_def b_def split_beta)
  have b: "set (b_list b) \<subseteq> set (b_list (heap s ?t))"
    by (auto simp: b_def bucket_Remove_def split: option.splits)
  from idx have t: "?t \<in> set (dir s)" by simp
  from x obtain a where a: "a \<in> set (dir s)" and xa: "x \<in> set (b_list (heap s' a))"
    by (auto simp: in_entries_iff s')
  show ?thesis
  proof (cases "a = ?t")
    case True
    with xa b t show ?thesis by (auto simp: s' in_entries_iff)
  next
    case False
    with xa a show ?thesis by (auto simp: s' in_entries_iff)
  qed
qed

lemma lookup_entries:
  assumes inv: "ht_inv h s" and l: "lookup h s key = Some v"
  shows "(key, v) \<in># entries s"
proof -
  have idx: "IndexOf h s key < length (dir s)" using inv by (rule IndexOf_less)
  from l obtain item where "find (\<lambda>item. fst item = key) (b_list (heap s (dir s ! IndexOf h s key))) = Some item"
    and v: "snd item = v"
    by (auto simp: lookup_def bucket_Find_def)
  then have "item \<in> set (b_list (heap s (dir s ! IndexOf h s key)))" and "fst item = key"
    by (auto simp: find_Some_iff)
  with v idx show ?thesis
    by (cases item) (auto simp: in_entries_iff)
qed

section \<open>Buffer pool manager (buffer\_pool\_manager\_instance.cpp)\<close>

text \<open>
  Modelled from the spec: the class \<open>Page\<close> (\<open>page.h\<close>) and the constants of \<open>config.h\<close> are
  not among the sources.  A frame holds a fixed-size byte buffer, the id of the resident
  page or \<open>INVALID_PAGE_ID\<close>, a pin count (an unsigned integer, here a natural number
  without an upper bound) and a dirty flag; \<open>INVALID_PAGE_ID\<close> is \<open>-1\<close>; \<open>ResetMemory\<close>
  zeroes the buffer.
\<close>

type_synonym page_data = "8 word list"

record page =
  page_id :: page_id_t
  pin_count :: nat
  is_dirty :: bool
  data :: page_data

definition INVALID_PAGE_ID :: page_id_t where
  "INVALID_PAGE_ID = - 1"

definition ResetMemory :: "page \<Rightarrow> page" where
  "ResetMemory p = p\<lparr>data := replicate (length (data p)) 0\<rparr>"

definition Page :: "nat \<Rightarrow> page" where
  "Page page_size =
     \<lparr>page_id = INVALID_PAGE_ID, pin_count = 0, is_dirty = False, data = replicate page_size 0\<rparr>"

text \<open>
  The fields of \<open>BufferPoolManagerInstance\<close>; \<open>pool_size_\<close> is the length of \<open>pages\<close>.
  Modelled from the spec: the disk manager is an external collaborator whose \<open>ReadPage\<close> and
  \<open>WritePage\<close> are total and transfer one page; \<open>disk\<close> is the page store it reads and
  writes.
\<close>

record bpm =
  pages :: "page list"
  page_table :: "(page_id_t, frame_id_t) table"
  replacer :: replacer
  free_list :: "frame_id_t list"
  next_page_id :: page_id_t
  disk :: "page_id_t \<Rightarrow> page_data"

text \<open>
  How a call ends: it returns, it ends in a fault, or it does not return (the loop of the
  page table's \<open>Insert\<close>).
\<close>

datatype 'a outcome = Returns 'a | Fails fault | NoReturn

text \<open>
  The constructor.  The bucket size of the page table (\<open>bucket_size_\<close>, a constant of the
  header) and the page size are parameters, and so is the initial content of the disk.
\<close>

definition BufferPoolManagerInstance ::
  "nat \<Rightarrow> size_t \<Rightarrow> nat \<Rightarrow> nat \<Rightarrow> (page_id_t \<Rightarrow> page_data) \<Rightarrow> bpm" where
  "BufferPoolManagerInstance pool_size replacer_k bucket_size0 page_size disk0 =
     \<lparr>pages = replicate pool_size (Page page_size),
      page_table = ExtendibleHashTable bucket_size0,
      replacer = LRUKReplacer (of_nat pool_size) replacer_k,
      free_list = map int [0..<pool_size],
      next_page_id = 0,
      disk = disk0\<rparr>"

text \<open>\<open>pages_[frame_id]\<close> is inside the array.\<close>

definition valid_frame :: "bpm \<Rightarrow> frame_id_t \<Rightarrow> bool" where
  "valid_frame s frame_id \<longleftrightarrow> 0 \<le> frame_id \<and> nat frame_id < length (pages s)"

text \<open>The loop that looks for a page with pin count 0.\<close>

definition has_avail_frame :: "bpm \<Rightarrow> bool" where
  "has_avail_frame s = list_ex (\<lambda>p. pin_count p = 0) (pages s)"

text \<open>
  The block ``make room for the page'' of \<open>NewPgImp\<close> and \<open>FetchPgImp\<close>: a frame from the
  free list or, when it is empty, a victim of the replacer, written back if dirty, zeroed
  and taken out of the page table.  (\<open>NewPgImp\<close> zeroes the frame before the removal from the
  page table and \<open>FetchPgImp\<close> after it; the two steps touch different fields.)  The result
  of \<open>Evict\<close> is not tested: when it finds no victim, \<open>frame_id\<close> is used uninitialised.
\<close>

definition make_room :: "(page_id_t \<Rightarrow> nat) \<Rightarrow> bpm \<Rightarrow> (bpm \<times> frame_id_t) outcome" where
  "make_room h s =
     (case free_list s of
        frame_id # rest \<Rightarrow> Returns (s\<lparr>free_list := rest\<rparr>, frame_id)
      | [] \<Rightarrow>
          (case Evict (replacer s) of
             (r, None) \<Rightarrow> Fails UninitialisedFrameId
           | (r, Some frame_id) \<Rightarrow>
               if \<not> valid_frame s frame_id then Fails IndexOutOfRange
               else
                 (let p = pages s ! nat frame_id;
                      evicted_page_id = page_id p;
                      d = (if is_dirty p then (disk s)(evicted_page_id := data p) else disk s);
                      p1 = (if is_dirty p then p\<lparr>is_dirty := False\<rparr> else p);
                      p2 = ResetMemory p1
                  in case Remove_key h (page_table s) evicted_page_id of
                       Inl e \<Rightarrow> Fails e
                     | Inr (pt, found) \<Rightarrow>
                         Returns (s\<lparr>pages := (pages s)[nat frame_id := p2], page_table := pt,
                                    replacer := r, disk := d\<rparr>, frame_id))))"

text \<open>
  The common end of \<open>NewPgImp\<close> and of the miss path of \<open>FetchPgImp\<close>: the page table entry,
  the frame's metadata, \<open>RecordAccess\<close> and \<open>SetEvictable(frame_id, false)\<close>.
\<close>

definition install_page ::
  "(page_id_t \<Rightarrow> nat) \<Rightarrow> bpm \<Rightarrow> page_id_t \<Rightarrow> frame_id_t \<Rightarrow> bpm outcome" where
  "install_page h s pid frame_id =
     (case Insert h (page_table s) pid frame_id of
        None \<Rightarrow> NoReturn
      | Some (Inl e) \<Rightarrow> Fails e
      | Some (Inr pt) \<Rightarrow>
          if \<not> valid_frame s frame_id then Fails IndexOutOfRange
          else
            (let p = (pages s ! nat frame_id)\<lparr>page_id := pid, pin_count := 1\<rparr>;
                 s1 = s\<lparr>page_table := pt, pages := (pages s)[nat frame_id := p]\<rparr>
             in case RecordAccess (replacer s1) frame_id of
                  Inl e \<Rightarrow> Fails e
                | Inr r1 \<Rightarrow>
                    (case SetEvictable r1 frame_id False of
                       Inl e \<Rightarrow> Fails e
                     | Inr r2 \<Rightarrow> Returns (s1\<lparr>replacer := r2\<rparr>))))"

text \<open>
  \<open>NewPgImp\<close>: \<open>None\<close> for the null pointer, otherwise the new page id (written to
  \<open>*page_id\<close>) and the frame the returned pointer points to.
\<close>

definition NewPgImp ::
  "(page_id_t \<Rightarrow> nat) \<Rightarrow> bpm \<Rightarrow> (bpm \<times> (page_id_t \<times> frame_id_t) option) outcome" where
  "NewPgImp h s =
     (if \<not> has_avail_frame s then Returns (s, None)
      else
        (let pid = next_page_id s;
             s0 = s\<lparr>next_page_id := next_page_id s + 1\<rparr>
         in case make_room h s0 of
              Fails e \<Rightarrow> Fails e
            | NoReturn \<Rightarrow> NoReturn
            | Returns (s1, frame_id) \<Rightarrow>
                (case install_page h s1 pid frame_id of
                   Fails e \<Rightarrow> Fails e
                 | NoReturn \<Rightarrow> NoReturn
                 | Returns s2 \<Rightarrow> Returns (s2, Some (pid, frame_id)))))"

definition FetchPgImp ::
  "(page_id_t \<Rightarrow> nat) \<Rightarrow> bpm \<Rightarrow> page_id_t \<Rightarrow> (bpm \<times> frame_id_t option) outcome" where
  "FetchPgImp h s pid =
     (case Find h (page_table s) pid of
        Inl e \<Rightarrow> Fails e
      | Inr (pt, Some frame_id) \<Rightarrow>
          if \<not> valid_frame s frame_id then Fails IndexOutOfRange
          else
            (let p = pages s ! nat frame_id;
                 s1 = s\<lparr>page_table := pt,
                        pages := (pages s)[nat frame_id := p\<lparr>pin_count := pin_count p + 1\<rparr>]\<rparr>
             in case RecordAccess (replacer s1) frame_id of
                  Inl e \<Rightarrow> Fails e
                | Inr r1 \<Rightarrow>
                    (case SetEvictable r1 frame_id False of
                       Inl e \<Rightarrow> Fails e
                     | Inr r2 \<Rightarrow> Returns (s1\<lparr>replacer := r2\<rparr>, Some frame_id)))
      | Inr (pt, None) \<Rightarrow>
          (let s0 = s\<lparr>page_table := pt\<rparr> in
           if \<not> has_avail_frame s0 then Returns (s0, None)
           else
             (case make_room h s0 of
                Fails e \<Rightarrow> Fails e
              | NoReturn \<Rightarrow> NoReturn
              | Returns (s1, frame_id) \<Rightarrow>
                  (case install_page h s1 pid frame_id of
                     Fails e \<Rightarrow> Fails e
                   | NoReturn \<Rightarrow> NoReturn
                   | Returns s2 \<Rightarrow>
                       Returns (s2\<lparr>pages := (pages s2)
                                  [nat frame_id := (pages s2 ! nat frame_id)\<lparr>data := disk s2 pid\<rparr>]\<rparr>,
                                Some frame_id)))))"

definition UnpinPgImp ::
  "(page_id_t \<Rightarrow> nat) \<Rightarrow> bpm \<Rightarrow> page_id_t \<Rightarrow> bool \<Rightarrow> (bpm \<times> bool) outcome" where
  "UnpinPgImp h s pid dirty =
     (case Find h (page_table s) pid of
        Inl e \<Rightarrow> Fails e
      | Inr (pt, None) \<Rightarrow> Returns (s\<lparr>page_table := pt\<rparr>, False)
      | Inr (pt, Some frame_id) \<Rightarrow>
          if \<not> valid_frame s frame_id then Fails IndexOutOfRange
          else
            (let s0 = s\<lparr>page_table := pt\<rparr>;
                 p = pages s0 ! nat frame_id
             in if pin_count p = 0 then Returns (s0, False)
                else
                  (let p1 = (if dirty then p\<lparr>is_dirty := dirty\<rparr> else p);
                       p2 = p1\<lparr>pin_count := pin_count p1 - 1\<rparr>;
                       s1 = s0\<lparr>pages := (pages s0)[nat frame_id := p2]\<rparr>
                   in if pin_count p2 = 0
                      then (case SetEvictable (replacer s1) frame_id True of
                              Inl e \<Rightarrow> Fails e
                            | Inr r \<Rightarrow> Returns (s1\<lparr>replacer := r\<rparr>, True))
                      else Returns (s1, True))))"

definition FlushPgImp ::
  "(page_id_t \<Rightarrow> nat) \<Rightarrow> bpm \<Rightarrow> page_id_t \<Rightarrow> (bpm \<times> bool) outcome" where
  "FlushPgImp h s pid =
     (case Find h (page_table s) pid of
        Inl e \<Rightarrow> Fails e
      | Inr (pt, None) \<Rightarrow> Returns (s\<lparr>page_table := pt\<rparr>, False)
      | Inr (pt, Some frame_id) \<Rightarrow>
          if \<not> valid_frame s frame_id then Fails IndexOutOfRange
          else
            (let p = pages s ! nat frame_id
             in Returns (s\<lparr>page_table := pt,
                           disk := (disk s)(pid := data p),
                           pages := (pages s)[nat frame_id := p\<lparr>is_dirty := False\<rparr>]\<rparr>, True)))"

definition DeletePgImp ::
  "(page_id_t \<Rightarrow> nat) \<Rightarrow> bpm \<Rightarrow> page_id_t \<Rightarrow> (bpm \<times> bool) outcome" where
  "DeletePgImp h s pid =
     (case Find h (page_table s) pid of
        Inl e \<Rightarrow> Fails e
      | Inr (pt, None) \<Rightarrow> Returns (s\<lparr>page_table := pt\<rparr>, True)
      | Inr (pt, Some frame_id) \<Rightarrow>
          if \<not> valid_frame s frame_id then Fails IndexOutOfRange
          else
            (let s0 = s\<lparr>page_table := pt\<rparr>;
                 p = pages s0 ! nat frame_id
             in if pin_count p > 0 then Returns (s0, False)
                else
                  (let d = (if is_dirty p then (disk s0)(pid := data p) else disk s0);
                       p1 = (if is_dirty p then p\<lparr>is_dirty := False\<rparr> else p);
                       p2 = ResetMemory (p1\<lparr>page_id := INVALID_PAGE_ID, pin_count := 0\<rparr>)
                   in case Remove_key h (page_table s0) pid of
                        Inl e \<Rightarrow> Fails e
                      | Inr (pt1, found) \<Rightarrow>
                          (case Remove (replacer s0) frame_id of
                             Inl e \<Rightarrow> Fails e
                           | Inr r \<Rightarrow>
                               Returns (s0\<lparr>pages := (pages s0)[nat frame_id := p2],
                                           free_list := free_list s0 @ [frame_id],
                                           page_table := pt1, replacer := r, disk := d\<rparr>,
                                        True)))))"

text \<open>
  The states that the five public operations reach from a new buffer pool.  Every call
  holds the latch from its first to its last statement and is one step here.
  \<open>FlushAllPgsImp\<close>, which calls \<open>FlushPgImp\<close> while it holds the latch that \<open>FlushPgImp\<close>
  takes, is left out.
\<close>

inductive reachable_bpm ::
  "(page_id_t \<Rightarrow> nat) \<Rightarrow> nat \<Rightarrow> size_t \<Rightarrow> nat \<Rightarrow> nat \<Rightarrow> (page_id_t \<Rightarrow> page_data) \<Rightarrow> bpm \<Rightarrow> bool"
  for h :: "page_id_t \<Rightarrow> nat" and pool_size :: nat and replacer_k :: size_t
    and bucket_size0 :: nat and page_size :: nat and disk0 :: "page_id_t \<Rightarrow> page_data" where
  reach_init:
    "reachable_bpm h pool_size replacer_k bucket_size0 page_size disk0
       (BufferPoolManagerInstance pool_size replacer_k bucket_size0 page_size disk0)"
| reach_NewPage:
    "reachable_bpm h pool_size replacer_k bucket_size0 page_size disk0 s \<Longrightarrow>
     NewPgImp h s = Returns (s', r) \<Longrightarrow>
     reachable_bpm h pool_size replacer_k bucket_size0 page_size disk0 s'"
| reach_FetchPage:
    "reachable_bpm h pool_size replacer_k bucket_size0 page_size disk0 s \<Longrightarrow>
     FetchPgImp h s pid = Returns (s', fr) \<Longrightarrow>
     reachable_bpm h pool_size replacer_k bucket_size0 page_size disk0 s'"
| reach_UnpinPage:
    "reachable_bpm h pool_size replacer_k bucket_size0 page_size disk0 s \<Longrightarrow>
     UnpinPgImp h s pid dirty = Returns (s', ok) \<Longrightarrow>
     reachable_bpm h pool_size replacer_k bucket_size0 page_size disk0 s'"
| reach_FlushPage:
    "reachable_bpm h pool_size replacer_k bucket_size0 page_size disk0 s \<Longrightarrow>
     FlushPgImp h s pid = Returns (s', ok) \<Longrightarrow>
     reachable_bpm h pool_size replacer_k bucket_size0 page_size disk0 s'"
| reach_DeletePage:
    "reachable_bpm h pool_size replacer_k bucket_size0 page_size disk0 s \<Longrightarrow>
     DeletePgImp h s pid = Returns (s', ok) \<Longrightarrow>
     reachable_bpm h pool_size replacer_k bucket_size0 page_size disk0 s'"

text \<open>A sequence of calls of the public operations, with their results.\<close>

datatype bpm_call =
  NewPage | FetchPage page_id_t | UnpinPage page_id_t bool | FlushPage page_id_t
| DeletePage page_id_t

datatype bpm_result =
  Handle "(page_id_t \<times> frame_id_t) option" | Frame "frame_id_t option" | Flag bool

fun bpm_step :: "(page_id_t \<Rightarrow> nat) \<Rightarrow> bpm \<Rightarrow> bpm_call \<Rightarrow> (bpm \<times> bpm_result) outcome" where
  "bpm_step h s NewPage = map_outcome (map_prod id Handle) (NewPgImp h s)"
| "bpm_step h s (FetchPage pid) = map_outcome (map_prod id Frame) (FetchPgImp h s pid)"
| "bpm_step h s (UnpinPage pid dirty) = map_outcome (map_prod id Flag) (UnpinPgImp h s pid dirty)"
| "bpm_step h s (FlushPage pid) = map_outcome (map_prod id Flag) (FlushPgImp h s pid)"
| "bpm_step h s (DeletePage pid) = map_outcome (map_prod id Flag) (DeletePgImp h s pid)"

fun bpm_run :: "(page_id_t \<Rightarrow> nat) \<Rightarrow> bpm \<Rightarrow> bpm_call list \<Rightarrow> (bpm \<times> bpm_result list) outcome" where
  "bpm_run h s [] = Returns (s, [])"
| "bpm_run h s (c # cs) =
     (case bpm_step h s c of
        Fails e \<Rightarrow> Fails e
      | NoReturn \<Rightarrow> NoReturn
      | Returns (s1, r) \<Rightarrow> map_outcome (map_prod id ((#) r)) (bpm_run h s1 cs))"

lemma reachable_bpm_step:
  assumes "reachable_bpm h pool_size replacer_k bucket_size0 page_size disk0 s"
    and "bpm_step h s c = Returns (s', r)"
  shows "reachable_bpm h pool_size replacer_k bucket_size0 page_size disk0 s'"
proof (cases c)
  case NewPage
  with assms(2) obtain x where "NewPgImp h s = Returns (s', x)"
    by (cases "NewPgImp h s") auto
  with assms(1) show ?thesis by (rule reach_NewPage)
next
  case (FetchPage pid)
  with assms(2) obtain x where "FetchPgImp h s pid = Returns (s', x)"
    by (cases "FetchPgImp h s pid") auto
  with assms(1) show ?thesis by (rule reach_FetchPage)
next
  case (UnpinPage pid dirty)
  with assms(2) obtain x where "UnpinPgImp h s pid dirty = Returns (s', x)"
    by (cases "UnpinPgImp h s pid dirty") auto
  with assms(1) show ?thesis by (rule reach_UnpinPage)
next
  case (FlushPage pid)
  with assms(2) obtain x where "FlushPgImp h s pid = Returns (s', x)"
    by (cases "FlushPgImp h s pid") auto
  with assms(1) show ?thesis by (rule reach_FlushPage)
next
  case (DeletePage pid)
  with assms(2) obtain x where "DeletePgImp h s pid = Returns (s', x)"
    by (cases "DeletePgImp h s pid") auto
  with assms(1) show ?thesis by (rule reach_DeletePage)
qed

lemma reachable_bpm_run:
  "reachable_bpm h pool_size replacer_k bucket_size0 page_size disk0 s \<Longrightarrow>
   bpm_run h s cs = Returns (s', rs) \<Longrightarrow>
   reachable_bpm h pool_size replacer_k bucket_size0 page_size disk0 s'"
proof (induction cs arbitrary: s rs)
  case Nil
  then show ?case by simp
next
  case (Cons c cs)
  from Cons.prems(2) obtain s1 r where step: "bpm_step h s c = Returns (s1, r)"
    by (cases "bpm_step h s c") auto
  with Cons.prems(2) obtain rs' where "bpm_run h s1 cs = Returns (s', rs')"
    by (cases "bpm_run h s1 cs") auto
  with Cons.IH [OF reachable_bpm_step [OF Cons.prems(1) step]] show ?case by blast
qed

subsection \<open>What the replacer's calls do to the evictability of frames\<close>

lemma RecordAccess_evictable:
  "RecordAccess r f = Inr r' \<Longrightarrow>
     is_evictable_map r' = is_evictable_map r \<and> curr_size r' = curr_size r \<and>
     replacer_size r' = replacer_size r"
  by (auto simp: RecordAccess_def Let_def split_beta split: if_splits)

lemma SetEvictable_evictable:
  assumes "SetEvictable r f b = Inr r'"
  shows "evictable r' g = (if g = f then b else evictable r g)"
    and "curr_size r' = (if evictable r f = b then curr_size r
                         else if b then curr_size r + 1 else curr_size r - 1)"
    and "replacer_size r' = replacer_size r" and "lru_list r' = lru_list r"
    and "lru_k_list r' = lru_k_list r" and "access_count_map r' = access_count_map r"
  using assms
  by (cases "is_evictable_map r f"; cases b;
      auto simp: SetEvictable_def subscript_def evictable_def Let_def split: if_splits)+

lemma Evict_evictable:
  assumes "Evict r = (r', Some f)"
  shows "evictable r' g = (g \<noteq> f \<and> evictable r g)"
proof -
  obtain p m1 where s1: "scan_evictable (lru_list r) (is_evictable_map r) = (p, m1)"
    by (cases "scan_evictable (lru_list r) (is_evictable_map r)")
  obtain q m2 where s2: "scan_evictable (lru_k_list r) m1 = (q, m2)"
    by (cases "scan_evictable (lru_k_list r) m1")
  have m1: "(m1 g = Some True) = (is_evictable_map r g = Some True)" for g
    using scan_evictable_spec [OF s1] by simp
  have m2: "(m2 g = Some True) = (is_evictable_map r g = Some True)" for g
    using scan_evictable_spec [OF s2] m1 by simp
  from assms s1 s2 have "is_evictable_map r' = m1(f := None) \<or> is_evictable_map r' = m2(f := None)"
    by (auto simp: Evict_def Let_def split: if_splits)
  then show ?thesis
    using m1 [of g] m2 [of g] by (auto simp: evictable_def split: if_splits)
qed

lemma Remove_evictable:
  assumes "Remove r f = Inr r'" and "g \<noteq> f"
  shows "evictable r' g = evictable r g"
  using assms
  by (auto simp: Remove_def subscript_def evictable_def Let_def split_beta
      split: if_splits option.splits)

subsection \<open>Pin counts and evictability\<close>

text \<open>
  For every frame that holds a page, the pin count is 0 if and only if the replacer has
  the frame as evictable.
\<close>

definition bpm_inv :: "bpm \<Rightarrow> bool" where
  "bpm_inv s \<longleftrightarrow>
     (\<forall>f < length (pages s).
        page_id (pages s ! f) \<noteq> INVALID_PAGE_ID \<longrightarrow>
        (pin_count (pages s ! f) = 0) = evictable (replacer s) (int f))"

lemma bpm_inv_frame:
  assumes inv: "bpm_inv s"
    and len: "length (pages s') = length (pages s)"
    and f: "0 \<le> f"
    and others: "\<And>g. g < length (pages s) \<Longrightarrow> g \<noteq> nat f \<Longrightarrow> pages s' ! g = pages s ! g"
    and ev: "\<And>g. g \<noteq> f \<Longrightarrow> evictable (replacer s') g = evictable (replacer s) g"
    and own: "nat f < length (pages s) \<Longrightarrow> page_id (pages s' ! nat f) \<noteq> INVALID_PAGE_ID \<Longrightarrow>
        (pin_count (pages s' ! nat f) = 0) = evictable (replacer s') f"
  shows "bpm_inv s'"
  unfolding bpm_inv_def
proof (intro allI impI)
  fix g assume g: "g < length (pages s')" and res: "page_id (pages s' ! g) \<noteq> INVALID_PAGE_ID"
  show "(pin_count (pages s' ! g) = 0) = evictable (replacer s') (int g)"
  proof (cases "g = nat f")
    case True
    with f have "int g = f" by simp
    with own g res len True show ?thesis by simp
  next
    case False
    then have "int g \<noteq> f" by auto
    with others [of g] ev [of "int g"] g res len False inv show ?thesis
      by (simp add: bpm_inv_def)
  qed
qed

lemma make_room_frame:
  assumes "make_room h s = Returns (s1, f)"
  shows "length (pages s1) = length (pages s)"
    and "\<And>g. g \<noteq> nat f \<Longrightarrow> pages s1 ! g = pages s ! g"
    and "\<And>g. g \<noteq> f \<Longrightarrow> evictable (replacer s1) g = evictable (replacer s) g"
    and "next_page_id s1 = next_page_id s"
proof -
  show "length (pages s1) = length (pages s)"
    using assms
    by (auto simp: make_room_def Let_def split: list.splits prod.splits option.splits
        if_splits sum.splits)
  show "next_page_id s1 = next_page_id s"
    using assms
    by (auto simp: make_room_def Let_def split: list.splits prod.splits option.splits
        if_splits sum.splits)
  show "pages s1 ! g = pages s ! g" if "g \<noteq> nat f" for g
    using assms that
    by (auto simp: make_room_def Let_def split: list.splits prod.splits option.splits
        if_splits sum.splits)
  show "evictable (replacer s1) g = evictable (replacer s) g" if "g \<noteq> f" for g
    using assms that
    by (auto simp: make_room_def Let_def Evict_evictable split: list.splits prod.splits
        option.splits if_splits sum.splits)
qed

lemma install_page_frame:
  assumes "install_page h s1 pid f = Returns s2"
  shows "valid_frame s1 f"
    and "pages s2 = (pages s1)[nat f := (pages s1 ! nat f)\<lparr>page_id := pid, pin_count := 1\<rparr>]"
    and "\<And>g. evictable (replacer s2) g = (g \<noteq> f \<and> evictable (replacer s1) g)"
    and "next_page_id s2 = next_page_id s1" and "disk s2 = disk s1" and "free_list s2 = free_list s1"
proof -
  from assms obtain pt r1 r2 where ins: "Insert h (page_table s1) pid f = Some (Inr pt)"
    and v: "valid_frame s1 f"
    and ra: "RecordAccess (replacer s1) f = Inr r1"
    and se: "SetEvictable r1 f False = Inr r2"
    and s2: "s2 = s1\<lparr>page_table := pt,
        pages := (pages s1)[nat f := (pages s1 ! nat f)\<lparr>page_id := pid, pin_count := 1\<rparr>],
        replacer := r2\<rparr>"
    by (auto simp: install_page_def Let_def split: option.splits sum.splits if_splits)
  show "valid_frame s1 f" by (rule v)
  show "pages s2 = (pages s1)[nat f := (pages s1 ! nat f)\<lparr>page_id := pid, pin_count := 1\<rparr>]"
    and "next_page_id s2 = next_page_id s1" and "disk s2 = disk s1" and "free_list s2 = free_list s1"
    by (simp_all add: s2)
  show "evictable (replacer s2) g = (g \<noteq> f \<and> evictable (replacer s1) g)" for g
    using SetEvictable_evictable(1) [OF se, of g] RecordAccess_evictable [OF ra]
    by (auto simp: s2 evictable_def)
qed

lemma bpm_inv_cong:
  "bpm_inv s \<Longrightarrow> pages s' = pages s \<Longrightarrow> replacer s' = replacer s \<Longrightarrow> bpm_inv s'"
  by (simp add: bpm_inv_def)

lemma bpm_inv_installed:
  assumes inv: "bpm_inv s"
    and pages0: "pages s0 = pages s" and repl0: "replacer s0 = replacer s"
    and room: "make_room h s0 = Returns (s1, f)"
    and inst: "install_page h s1 pid f = Returns s2"
    and pages': "pages s' = (pages s2)[nat f := (pages s2 ! nat f)\<lparr>data := d\<rparr>] \<or> pages s' = pages s2"
    and repl': "replacer s' = replacer s2"
  shows "bpm_inv s'"
proof (rule bpm_inv_frame [OF inv, of s' f])
  note mr = make_room_frame [OF room]
  note ip = install_page_frame [OF inst]
  have v: "0 \<le> f" "nat f < length (pages s1)"
    using ip(1) by (simp_all add: valid_frame_def)
  show "length (pages s') = length (pages s)"
    using pages' ip(2) mr(1) pages0 by auto
  show "0 \<le> f" by (rule v)
  show "pages s' ! g = pages s ! g" if "g < length (pages s)" "g \<noteq> nat f" for g
    using pages' ip(2) mr(2) [OF that(2)] pages0 that by auto
  show "evictable (replacer s') g = evictable (replacer s) g" if "g \<noteq> f" for g
    using repl' ip(3) [of g] mr(3) [OF that] repl0 that by simp
  show "(pin_count (pages s' ! nat f) = 0) = evictable (replacer s') f"
    using pages' ip(2) ip(3) [of f] v repl' by auto
qed

lemma bpm_inv_NewPgImp:
  assumes inv: "bpm_inv s" and new: "NewPgImp h s = Returns (s', r)"
  shows "bpm_inv s'"
proof (cases "has_avail_frame s")
  case False
  with new have "s' = s" by (simp add: NewPgImp_def)
  with inv show ?thesis by simp
next
  case True
  let ?s0 = "s\<lparr>next_page_id := next_page_id s + 1\<rparr>"
  from new True obtain s1 f where room: "make_room h ?s0 = Returns (s1, f)"
    and inst: "install_page h s1 (next_page_id s) f = Returns s'"
    by (auto simp: NewPgImp_def Let_def split: outcome.splits)
  show ?thesis
    by (rule bpm_inv_installed [OF inv _ _ room inst]) simp_all
qed

lemma bpm_inv_pinned:
  assumes inv: "bpm_inv s" and v: "valid_frame s f"
    and pages': "pages s' = (pages s)[nat f := p]" and pin: "pin_count p \<noteq> 0"
    and ev: "\<And>g. evictable (replacer s') g = (g \<noteq> f \<and> evictable (replacer s) g)"
  shows "bpm_inv s'"
proof (rule bpm_inv_frame [OF inv, of s' f])
  show "length (pages s') = length (pages s)" by (simp add: pages')
  show "0 \<le> f" using v by (simp add: valid_frame_def)
  show "pages s' ! g = pages s ! g" if "g \<noteq> nat f" for g
    using that by (simp add: pages')
  show "evictable (replacer s') g = evictable (replacer s) g" if "g \<noteq> f" for g
    using that ev by simp
  show "(pin_count (pages s' ! nat f) = 0) = evictable (replacer s') f"
    if "nat f < length (pages s)"
    using that pin ev [of f] by (simp add: pages')
qed

lemma bpm_inv_FetchPgImp:
  assumes inv: "bpm_inv s" and fetch: "FetchPgImp h s pid = Returns (s', r)"
  shows "bpm_inv s'"
proof -
  from fetch obtain pt fr where find: "Find h (page_table s) pid = Inr (pt, fr)"
    by (auto simp: FetchPgImp_def split: sum.splits)
  show ?thesis
  proof (cases fr)
    case (Some f)
    let ?p = "(pages s ! nat f)\<lparr>pin_count := pin_count (pages s ! nat f) + 1\<rparr>"
    from fetch find Some obtain r1 r2 where v: "valid_frame s f"
      and ra: "RecordAccess (replacer s) f = Inr r1"
      and se: "SetEvictable r1 f False = Inr r2"
      and s': "s' = s\<lparr>page_table := pt, pages := (pages s)[nat f := ?p], replacer := r2\<rparr>"
      by (auto simp: FetchPgImp_def Let_def split: sum.splits if_splits)
    have ev: "evictable r2 g = (g \<noteq> f \<and> evictable (replacer s) g)" for g
      using SetEvictable_evictable(1) [OF se, of g] RecordAccess_evictable [OF ra]
      by (auto simp: evictable_def)
    show ?thesis
      by (rule bpm_inv_pinned [OF inv v, of s' ?p]) (simp_all add: s' ev)
  next
    case None
    let ?s0 = "s\<lparr>page_table := pt\<rparr>"
    show ?thesis
    proof (cases "has_avail_frame ?s0")
      case False
      with fetch find None have "s' = ?s0" by (simp add: FetchPgImp_def)
      with inv show ?thesis by (simp add: bpm_inv_def)
    next
      case True
      from fetch find None True obtain s1 f s2 where room: "make_room h ?s0 = Returns (s1, f)"
        and inst: "install_page h s1 pid f = Returns s2"
        and s': "s' = s2\<lparr>pages := (pages s2)[nat f := (pages s2 ! nat f)\<lparr>data := disk s2 pid\<rparr>]\<rparr>"
        by (auto simp: FetchPgImp_def Let_def split: outcome.splits)
      show ?thesis
        by (rule bpm_inv_installed [OF inv _ _ room inst, of s' "disk s2 pid"]) (simp_all add: s')
    qed
  qed
qed

lemma bpm_inv_UnpinPgImp:
  assumes inv: "bpm_inv s" and unpin: "UnpinPgImp h s pid dirty = Returns (s', r)"
  shows "bpm_inv s'"
proof -
  from unpin obtain pt fr where find: "Find h (page_table s) pid = Inr (pt, fr)"
    by (auto simp: UnpinPgImp_def split: sum.splits)
  show ?thesis
  proof (cases fr)
    case None
    with unpin find have "s' = s\<lparr>page_table := pt\<rparr>" by (simp add: UnpinPgImp_def)
    with inv show ?thesis by (simp add: bpm_inv_def)
  next
    case (Some f)
    let ?p = "pages s ! nat f"
    from unpin find Some have v: "valid_frame s f"
      by (auto simp: UnpinPgImp_def split: if_splits)
    then have f: "0 \<le> f" "nat f < length (pages s)" by (simp_all add: valid_frame_def)
    show ?thesis
    proof (cases "pin_count ?p = 0")
      case True
      with unpin find Some v have "s' = s\<lparr>page_table := pt\<rparr>"
        by (simp add: UnpinPgImp_def Let_def)
      with inv show ?thesis by (simp add: bpm_inv_def)
    next
      case False
      let ?p2 = "(if dirty then ?p\<lparr>is_dirty := dirty\<rparr> else ?p)
                   \<lparr>pin_count := pin_count ?p - 1\<rparr>"
      have pid2: "page_id ?p2 = page_id ?p" and pin2: "pin_count ?p2 = pin_count ?p - 1"
        by simp_all
      show ?thesis
      proof (cases "pin_count ?p = 1")
        case True
        with unpin find Some v False obtain r1 where
          se: "SetEvictable (replacer s) f True = Inr r1"
          and s': "s' = s\<lparr>page_table := pt, pages := (pages s)[nat f := ?p2], replacer := r1\<rparr>"
          by (auto simp: UnpinPgImp_def Let_def split: sum.splits if_splits)
        show ?thesis
        proof (rule bpm_inv_frame [OF inv, of s' f])
          show "length (pages s') = length (pages s)" by (simp add: s')
          show "0 \<le> f" by (rule f)
          show "pages s' ! g = pages s ! g" if "g \<noteq> nat f" for g
            using that by (simp add: s')
          show "evictable (replacer s') g = evictable (replacer s) g" if "g \<noteq> f" for g
            using that SetEvictable_evictable(1) [OF se, of g] by (simp add: s')
          show "(pin_count (pages s' ! nat f) = 0) = evictable (replacer s') f"
            using f True SetEvictable_evictable(1) [OF se, of f] by (simp add: s')
        qed
      next
        case more: False
        with unpin find Some v False have
          s': "s' = s\<lparr>page_table := pt, pages := (pages s)[nat f := ?p2]\<rparr>"
          by (auto simp: UnpinPgImp_def Let_def split: sum.splits if_splits)
        show ?thesis
        proof (rule bpm_inv_frame [OF inv, of s' f])
          show "length (pages s') = length (pages s)" by (simp add: s')
          show "0 \<le> f" by (rule f)
          show "pages s' ! g = pages s ! g" if "g \<noteq> nat f" for g
            using that by (simp add: s')
          show "evictable (replacer s') g = evictable (replacer s) g" for g
            by (simp add: s')
          show "(pin_count (pages s' ! nat f) = 0) = evictable (replacer s') f"
            if res: "page_id (pages s' ! nat f) \<noteq> INVALID_PAGE_ID"
          proof -
            from res f have "page_id ?p \<noteq> INVALID_PAGE_ID"
              by (simp add: s' split: if_splits)
            with inv f False have "\<not> evictable (replacer s) (int (nat f))"
              by (simp add: bpm_inv_def)
            with f False more show ?thesis by (simp add: s' split: if_splits)
          qed
        qed
      qed
    qed
  qed
qed

lemma bpm_inv_FlushPgImp:
  assumes inv: "bpm_inv s" and flush: "FlushPgImp h s pid = Returns (s', r)"
  shows "bpm_inv s'"
proof -
  from flush obtain pt fr where find: "Find h (page_table s) pid = Inr (pt, fr)"
    by (auto simp: FlushPgImp_def split: sum.splits)
  show ?thesis
  proof (cases fr)
    case None
    with flush find have "s' = s\<lparr>page_table := pt\<rparr>" by (simp add: FlushPgImp_def)
    with inv show ?thesis by (simp add: bpm_inv_def)
  next
    case (Some f)
    from flush find Some have v: "valid_frame s f"
      and s': "s' = s\<lparr>page_table := pt, disk := (disk s)(pid := data (pages s ! nat f)),
          pages := (pages s)[nat f := (pages s ! nat f)\<lparr>is_dirty := False\<rparr>]\<rparr>"
      by (auto simp: FlushPgImp_def Let_def split: if_splits)
    from v have f: "0 \<le> f" "nat f < length (pages s)" by (simp_all add: valid_frame_def)
    show ?thesis
    proof (rule bpm_inv_frame [OF inv, of s' f])
      show "length (pages s') = length (pages s)" by (simp add: s')
      show "0 \<le> f" by (rule f)
      show "pages s' ! g = pages s ! g" if "g \<noteq> nat f" for g
        using that by (simp add: s')
      show "evictable (replacer s') g = evictable (replacer s) g" for g
        by (simp add: s')
      show "(pin_count (pages s' ! nat f) = 0) = evictable (replacer s') f"
        if "page_id (pages s' ! nat f) \<noteq> INVALID_PAGE_ID"
        using that inv f by (simp add: s' bpm_inv_def)
    qed
  qed
qed

lemma bpm_inv_DeletePgImp:
  assumes inv: "bpm_inv s" and del: "DeletePgImp h s pid = Returns (s', r)"
  shows "bpm_inv s'"
proof -
  from del obtain pt fr where find: "Find h (page_table s) pid = Inr (pt, fr)"
    by (auto simp: DeletePgImp_def split: sum.splits)
  show ?thesis
  proof (cases fr)
    case None
    with del find have "s' = s\<lparr>page_table := pt\<rparr>" by (simp add: DeletePgImp_def)
    with inv show ?thesis by (simp add: bpm_inv_def)
  next
    case (Some f)
    let ?p = "pages s ! nat f"
    from del find Some have v: "valid_frame s f"
      by (auto simp: DeletePgImp_def split: if_splits)
    then have f: "0 \<le> f" "nat f < length (pages s)" by (simp_all add: valid_frame_def)
    show ?thesis
    proof (cases "pin_count ?p > 0")
      case True
      with del find Some v have "s' = s\<lparr>page_table := pt\<rparr>"
        by (simp add: DeletePgImp_def Let_def)
      with inv show ?thesis by (simp add: bpm_inv_def)
    next
      case False
      define p2 where "p2 = ResetMemory
          ((if is_dirty ?p then ?p\<lparr>is_dirty := False\<rparr> else ?p)
             \<lparr>page_id := INVALID_PAGE_ID, pin_count := 0\<rparr>)"
      have p2: "page_id p2 = INVALID_PAGE_ID"
        by (simp add: p2_def ResetMemory_def)
      from del find Some v False obtain r1 where
        rm: "Remove (replacer s) f = Inr r1"
        and pages': "pages s' = (pages s)[nat f := p2]"
        and repl': "replacer s' = r1"
        unfolding p2_def
        by (auto simp: DeletePgImp_def Let_def split: sum.splits)
      show ?thesis
      proof (rule bpm_inv_frame [OF inv, of s' f])
        show "length (pages s') = length (pages s)" by (simp add: pages')
        show "0 \<le> f" by (rule f)
        show "pages s' ! g = pages s ! g" if "g \<noteq> nat f" for g
          using that by (simp add: pages')
        show "evictable (replacer s') g = evictable (replacer s) g" if "g \<noteq> f" for g
          using Remove_evictable [OF rm that] by (simp add: repl')
        show "(pin_count (pages s' ! nat f) = 0) = evictable (replacer s') f"
          if "page_id (pages s' ! nat f) \<noteq> INVALID_PAGE_ID"
          using that f p2 by (simp add: pages')
      qed
    qed
  qed
qed

lemma bpm_inv_init:
  "bpm_inv (BufferPoolManagerInstance pool_size replacer_k bucket_size0 page_size disk0)"
  by (simp add: bpm_inv_def BufferPoolManagerInstance_def Page_def)

lemma reachable_bpm_inv:
  "reachable_bpm h pool_size replacer_k bucket_size0 page_size disk0 s \<Longrightarrow> bpm_inv s"
proof (induction rule: reachable_bpm.induct)
  case reach_init
  show ?case by (rule bpm_inv_init)
next
  case (reach_NewPage s s' r)
  then show ?case by (blast intro: bpm_inv_NewPgImp)
next
  case (reach_FetchPage s pid s' fr)
  then show ?case by (blast intro: bpm_inv_FetchPgImp)
next
  case (reach_UnpinPage s pid dirty s' ok)
  then show ?case by (blast intro: bpm_inv_UnpinPgImp)
next
  case (reach_FlushPage s pid s' ok)
  then show ?case by (blast intro: bpm_inv_FlushPgImp)
next
  case (reach_DeletePage s pid s' ok)
  then show ?case by (blast intro: bpm_inv_DeletePgImp)
qed

subsection \<open>Observing a buffer pool\<close>

text \<open>The frame that the page table has for a page id; the page is resident when there is one.\<close>

definition frame_of :: "(page_id_t \<Rightarrow> nat) \<Rightarrow> bpm \<Rightarrow> page_id_t \<Rightarrow> frame_id_t option" where
  "frame_of h s pid = lookup h (page_table s) pid"

text \<open>What a caller can see of the frames: page id, pin count and dirty flag of each, and the free list.\<close>

definition pool_view :: "bpm \<Rightarrow> (page_id_t \<times> nat \<times> bool) list \<times> frame_id_t list" where
  "pool_view s = (map (\<lambda>p. (page_id p, pin_count p, is_dirty p)) (pages s), free_list s)"

text \<open>The outcome of a run, with the frame of one page id and the view of the frames.\<close>

definition observe ::
  "(page_id_t \<Rightarrow> nat) \<Rightarrow> page_id_t \<Rightarrow> (bpm \<times> bpm_result list) outcome \<Rightarrow>
   (frame_id_t option \<times> ((page_id_t \<times> nat \<times> bool) list \<times> frame_id_t list) \<times> bpm_result list) outcome"
  where
  "observe h pid out = map_outcome (\<lambda>(s, rs). (frame_of h s pid, pool_view s, rs)) out"

lemma observe_Returns:
  assumes "observe h pid out = Returns (fr, v, rs)"
  obtains s where "out = Returns (s, rs)" and "frame_of h s pid = fr" and "pool_view s = v"
  using assms by (cases out) (auto simp: observe_def)

lemma pool_view_nth:
  assumes "pool_view s = (v, fl)" and "g < length v"
  shows "page_id (pages s ! g) = fst (v ! g)" and "pin_count (pages s ! g) = fst (snd (v ! g))"
    and "is_dirty (pages s ! g) = snd (snd (v ! g))" and "length (pages s) = length v"
    and "free_list s = fl"
  using assms by (auto simp: pool_view_def)

subsection \<open>\<open>NewPage\<close> returns null when every frame is pinned\<close>




text \<open>
  A frame with pin count 0 does not make \<open>NewPgImp\<close> return a page.  On a pool of one
  frame, page 0 is deleted while the replacer still has an evictable entry for its frame,
  the frame is used again for page 1 and unpinned; the next \<open>NewPgImp\<close> finds the free list
  empty, \<open>Evict\<close> gives it no frame and it goes on with the \<open>frame_id\<close> it never set.
\<close>

lemma NewPage_after_reuse:
  "map_outcome snd (bpm_run nat (BufferPoolManagerInstance 1 2 4 page_size disk0)
      [NewPage, UnpinPage 0 False, DeletePage 0, NewPage, UnpinPage 1 False, NewPage]) =
     Fails UninitialisedFrameId"
  by code_simp

subsection \<open>Well-formed buffer pools\<close>

lemma static_cast_int_of_nat:
  assumes "n < 2 ^ 31"
  shows "static_cast_int (of_nat n) = int n"
proof -
  have "n < 2 ^ 64" using assms by (rule less_trans) simp
  then have "take_bit 64 n = n" by (simp add: take_bit_nat_eq_self)
  then have "(ucast (of_nat n :: 64 word) :: 32 word) = of_nat n"
    by (simp add: unsigned_of_nat)
  moreover have "sint (of_nat n :: 32 word) = int n"
    using assms by (simp add: signed_of_nat signed_take_bit_int_eq_self)
  ultimately show ?thesis by (simp add: static_cast_int_def)
qed

lemma Remove_evictable_all:
  assumes "Remove r f = Inr r'"
  shows "evictable r' g = evictable r g" and "replacer_size r' = replacer_size r"
  using assms
  by (auto simp: Remove_def subscript_def evictable_def Let_def split_beta
      split: if_splits option.splits)

lemma Evict_replacer_size: "Evict r = (r', x) \<Longrightarrow> replacer_size r' = replacer_size r"
  by (auto simp: Evict_def Let_def split_beta split: if_splits)

text \<open>
  The well-formedness of a buffer pool: the page table satisfies its invariant and maps
  page ids to frames of the pool; a frame of the page table with pin count 0 is evictable,
  and an evictable frame has pin count 0; the replacer was made for the pool's size.
\<close>

definition bpm_wf :: "(page_id_t \<Rightarrow> nat) \<Rightarrow> bpm \<Rightarrow> bool" where
  "bpm_wf h s \<longleftrightarrow>
     ht_inv h (page_table s) \<and>
     length (pages s) < 2 ^ 31 \<and>
     replacer_size (replacer s) = of_nat (length (pages s)) \<and>
     (\<forall>x \<in># entries (page_table s).
        valid_frame s (snd x) \<and>
        (pin_count (pages s ! nat (snd x)) = 0 \<longrightarrow> evictable (replacer s) (snd x))) \<and>
     (\<forall>f. valid_frame s f \<longrightarrow> evictable (replacer s) f \<longrightarrow> pin_count (pages s ! nat f) = 0)"

lemma bpm_wf_frame:
  assumes wf: "bpm_wf h s"
    and ht: "ht_inv h (page_table s')"
    and len: "length (pages s') = length (pages s)"
    and rs: "replacer_size (replacer s') = replacer_size (replacer s)"
    and f: "valid_frame s f"
    and ent: "\<And>x. x \<in># entries (page_table s') \<Longrightarrow> x \<in># entries (page_table s) \<or> snd x = f"
    and others: "\<And>g. g \<noteq> nat f \<Longrightarrow> pages s' ! g = pages s ! g"
    and ev: "\<And>g. g \<noteq> f \<Longrightarrow> evictable (replacer s') g = evictable (replacer s) g"
    and own: "(pin_count (pages s' ! nat f) = 0) = evictable (replacer s') f"
  shows "bpm_wf h s'"
proof -
  have valid: "valid_frame s' g = valid_frame s g" for g
    by (simp add: valid_frame_def len)
  have diff: "nat g \<noteq> nat f" if "valid_frame s g" "g \<noteq> f" for g
    using that f by (auto simp: valid_frame_def)
  have c4: "valid_frame s' (snd x) \<and>
      (pin_count (pages s' ! nat (snd x)) = 0 \<longrightarrow> evictable (replacer s') (snd x))"
    if x: "x \<in># entries (page_table s')" for x
  proof (cases "snd x = f")
    case True
    with f own show ?thesis by (simp add: valid)
  next
    case False
    with ent [OF x] have "x \<in># entries (page_table s)" by simp
    with wf have v: "valid_frame s (snd x)"
      and p: "pin_count (pages s ! nat (snd x)) = 0 \<longrightarrow> evictable (replacer s) (snd x)"
      by (auto simp: bpm_wf_def)
    from v p False others [OF diff [OF v False]] ev [OF False] show ?thesis
      by (simp add: valid)
  qed
  have c5: "pin_count (pages s' ! nat g) = 0"
    if "valid_frame s' g" "evictable (replacer s') g" for g
  proof (cases "g = f")
    case True
    with that own show ?thesis by simp
  next
    case False
    from that(1) have v: "valid_frame s g" by (simp add: valid)
    with wf that(2) ev [OF False] have "pin_count (pages s ! nat g) = 0"
      by (simp add: bpm_wf_def)
    with others [OF diff [OF v False]] show ?thesis by simp
  qed
  show ?thesis
    unfolding bpm_wf_def
    using ht wf len rs c4 c5 by (simp add: bpm_wf_def)
qed

lemma make_room_table:
  assumes "make_room h s = Returns (s1, f)" and "ht_inv h (page_table s)"
  shows "ht_inv h (page_table s1)"
    and "\<And>x. x \<in># entries (page_table s1) \<Longrightarrow> x \<in># entries (page_table s)"
    and "replacer_size (replacer s1) = replacer_size (replacer s)"
proof -
  show "ht_inv h (page_table s1)"
    using assms
    by (auto simp: make_room_def Let_def split: list.splits prod.splits option.splits
        if_splits sum.splits intro: ht_inv_Remove)
  show "x \<in># entries (page_table s1) \<Longrightarrow> x \<in># entries (page_table s)" for x
    using assms(1)
    by (auto simp: make_room_def Let_def split: list.splits prod.splits option.splits
        if_splits sum.splits dest: Remove_key_entries)
  show "replacer_size (replacer s1) = replacer_size (replacer s)"
    using assms(1)
    by (auto simp: make_room_def Let_def split: list.splits prod.splits option.splits
        if_splits sum.splits dest: Evict_replacer_size)
qed

lemma install_page_table:
  assumes "install_page h s1 pid f = Returns s2" and "ht_inv h (page_table s1)"
  shows "ht_inv h (page_table s2)"
    and "\<And>x. x \<in># entries (page_table s2) \<Longrightarrow> x \<in># entries (page_table s1) \<or> x = (pid, f)"
    and "replacer_size (replacer s2) = replacer_size (replacer s1)"
proof -
  from assms(1) obtain pt r1 r2 where ins: "Insert h (page_table s1) pid f = Some (Inr pt)"
    and ra: "RecordAccess (replacer s1) f = Inr r1"
    and se: "SetEvictable r1 f False = Inr r2"
    and s2: "page_table s2 = pt" "replacer s2 = r2"
    by (auto simp: install_page_def Let_def split: option.splits sum.splits if_splits)
  show "ht_inv h (page_table s2)"
    using ht_inv_Insert [OF assms(2) ins] by (simp add: s2)
  show "x \<in># entries (page_table s2) \<Longrightarrow> x \<in># entries (page_table s1) \<or> x = (pid, f)" for x
    using Insert_entries [OF assms(2) ins, of x] by (simp add: s2)
  show "replacer_size (replacer s2) = replacer_size (replacer s1)"
    using SetEvictable_evictable(3) [OF se] RecordAccess_evictable [OF ra] by (simp add: s2)
qed

lemma bpm_wf_installed:
  assumes wf: "bpm_wf h s"
    and same: "pages s0 = pages s" "replacer s0 = replacer s" "page_table s0 = page_table s"
    and room: "make_room h s0 = Returns (s1, f)"
    and inst: "install_page h s1 pid f = Returns s2"
    and pages': "pages s' = (pages s2)[nat f := (pages s2 ! nat f)\<lparr>data := d\<rparr>] \<or> pages s' = pages s2"
    and rest': "replacer s' = replacer s2" "page_table s' = page_table s2"
  shows "bpm_wf h s'"
proof (rule bpm_wf_frame [OF wf, of s' f])
  note mr = make_room_frame [OF room]
  note ip = install_page_frame [OF inst]
  have ht0: "ht_inv h (page_table s0)" using wf same by (simp add: bpm_wf_def)
  note mt = make_room_table [OF room ht0]
  note it = install_page_table [OF inst mt(1)]
  have v: "0 \<le> f" "nat f < length (pages s1)"
    using ip(1) by (simp_all add: valid_frame_def)
  show "ht_inv h (page_table s')" using it(1) rest' by simp
  show "length (pages s') = length (pages s)"
    using pages' ip(2) mr(1) same by auto
  show "replacer_size (replacer s') = replacer_size (replacer s)"
    using rest' it(3) mt(3) same by simp
  show "valid_frame s f"
    using ip(1) mr(1) same by (simp add: valid_frame_def)
  show "x \<in># entries (page_table s') \<Longrightarrow> x \<in># entries (page_table s) \<or> snd x = f" for x
    using it(2) [of x] mt(2) [of x] rest' same by auto
  show "pages s' ! g = pages s ! g" if "g \<noteq> nat f" for g
    using pages' ip(2) mr(2) [OF that] same that by auto
  show "evictable (replacer s') g = evictable (replacer s) g" if "g \<noteq> f" for g
    using rest' ip(3) [of g] mr(3) [OF that] same that by simp
  show "(pin_count (pages s' ! nat f) = 0) = evictable (replacer s') f"
    using pages' ip(2) ip(3) [of f] v rest' by auto
qed

lemma bpm_wf_Find:
  assumes "bpm_wf h s"
  shows "Find h (page_table s) pid = Inr (page_table s, lookup h (page_table s) pid)"
  using assms by (simp add: bpm_wf_def Find_lookup)

lemma bpm_wf_resident:
  assumes wf: "bpm_wf h s" and l: "lookup h (page_table s) pid = Some f"
  shows "valid_frame s f" and "\<not> f > static_cast_int (replacer_size (replacer s))"
    and "(pin_count (pages s ! nat f) = 0) = evictable (replacer s) f"
proof -
  have "ht_inv h (page_table s)" using wf by (simp add: bpm_wf_def)
  then have "(pid, f) \<in># entries (page_table s)"
    using l by (rule lookup_entries)
  with wf show v: "valid_frame s f"
    and "(pin_count (pages s ! nat f) = 0) = evictable (replacer s) f"
    by (auto simp: bpm_wf_def)
  from wf have "static_cast_int (replacer_size (replacer s)) = int (length (pages s))"
    by (simp add: bpm_wf_def static_cast_int_of_nat)
  with v show "\<not> f > static_cast_int (replacer_size (replacer s))"
    unfolding valid_frame_def by linarith
qed

lemma RecordAccess_returns:
  "\<not> f > static_cast_int (replacer_size r) \<Longrightarrow> \<exists>r'. RecordAccess r f = Inr r'"
  by (simp add: RecordAccess_def Let_def split_beta)

lemma SetEvictable_returns:
  "\<not> f > static_cast_int (replacer_size r) \<Longrightarrow> \<exists>r'. SetEvictable r f b = Inr r'"
  by (simp add: SetEvictable_def Let_def split_beta)

lemma Remove_returns:
  "\<not> f > static_cast_int (replacer_size r) \<Longrightarrow> \<exists>r'. Remove r f = Inr r'"
  by (simp add: Remove_def Let_def split_beta)

lemma FetchPgImp_resident:
  assumes wf: "bpm_wf h s" and l: "lookup h (page_table s) pid = Some f"
  obtains r1 r2 where "RecordAccess (replacer s) f = Inr r1"
    and "SetEvictable r1 f False = Inr r2"
    and "FetchPgImp h s pid =
      Returns (s\<lparr>pages := (pages s)
                 [nat f := (pages s ! nat f)\<lparr>pin_count := pin_count (pages s ! nat f) + 1\<rparr>],
                replacer := r2\<rparr>, Some f)"
proof -
  note res = bpm_wf_resident [OF wf l]
  from RecordAccess_returns [OF res(2)] obtain r1 where ra: "RecordAccess (replacer s) f = Inr r1"
    by blast
  have "\<not> f > static_cast_int (replacer_size r1)"
    using res(2) RecordAccess_evictable [OF ra] by simp
  from SetEvictable_returns [OF this] obtain r2 where se: "SetEvictable r1 f False = Inr r2"
    by blast
  have "FetchPgImp h s pid =
      Returns (s\<lparr>pages := (pages s)
                 [nat f := (pages s ! nat f)\<lparr>pin_count := pin_count (pages s ! nat f) + 1\<rparr>],
                replacer := r2\<rparr>, Some f)"
    using res(1) ra se by (simp add: FetchPgImp_def bpm_wf_Find [OF wf] l Let_def)
  with ra se show ?thesis by (rule that)
qed

lemma UnpinPgImp_not_resident:
  assumes wf: "bpm_wf h s" and l: "lookup h (page_table s) pid = None"
  shows "UnpinPgImp h s pid dirty = Returns (s, False)"
  by (simp add: UnpinPgImp_def bpm_wf_Find [OF wf] l)

lemma UnpinPgImp_unpinned:
  assumes wf: "bpm_wf h s" and l: "lookup h (page_table s) pid = Some f"
    and pin: "pin_count (pages s ! nat f) = 0"
  shows "UnpinPgImp h s pid dirty = Returns (s, False)"
  using bpm_wf_resident(1) [OF wf l] pin
  by (simp add: UnpinPgImp_def bpm_wf_Find [OF wf] l Let_def)

lemma UnpinPgImp_pinned:
  assumes wf: "bpm_wf h s" and l: "lookup h (page_table s) pid = Some f"
    and pin: "pin_count (pages s ! nat f) \<noteq> 0"
  obtains r where "if pin_count (pages s ! nat f) = 1
                   then SetEvictable (replacer s) f True = Inr r else r = replacer s"
    and "UnpinPgImp h s pid dirty =
      Returns (s\<lparr>pages := (pages s)
                 [nat f := (pages s ! nat f)
                    \<lparr>is_dirty := is_dirty (pages s ! nat f) \<or> dirty,
                     pin_count := pin_count (pages s ! nat f) - 1\<rparr>],
                replacer := r\<rparr>, True)"
proof -
  note res = bpm_wf_resident [OF wf l]
  let ?p = "pages s ! nat f"
  have p2: "(if dirty then ?p\<lparr>is_dirty := dirty\<rparr> else ?p)
      \<lparr>pin_count := pin_count (if dirty then ?p\<lparr>is_dirty := dirty\<rparr> else ?p) - 1\<rparr> =
      ?p\<lparr>is_dirty := is_dirty ?p \<or> dirty, pin_count := pin_count ?p - 1\<rparr>"
    by simp
  show ?thesis
  proof (cases "pin_count ?p = 1")
    case True
    from SetEvictable_returns [OF res(2)] obtain r where se: "SetEvictable (replacer s) f True = Inr r"
      by blast
    have "UnpinPgImp h s pid dirty =
      Returns (s\<lparr>pages := (pages s)[nat f := ?p\<lparr>is_dirty := is_dirty ?p \<or> dirty,
                     pin_count := pin_count ?p - 1\<rparr>], replacer := r\<rparr>, True)"
      using res(1) True se
      by (simp add: UnpinPgImp_def bpm_wf_Find [OF wf] l Let_def)
    with True se show ?thesis by (intro that [of r]) simp_all
  next
    case False
    have "UnpinPgImp h s pid dirty =
      Returns (s\<lparr>pages := (pages s)[nat f := ?p\<lparr>is_dirty := is_dirty ?p \<or> dirty,
                     pin_count := pin_count ?p - 1\<rparr>], replacer := replacer s\<rparr>, True)"
      using res(1) False pin
      by (simp add: UnpinPgImp_def bpm_wf_Find [OF wf] l Let_def)
    with False show ?thesis by (intro that [of "replacer s"]) simp_all
  qed
qed

lemma bpm_wf_NewPgImp:
  assumes wf: "bpm_wf h s" and new: "NewPgImp h s = Returns (s', r)"
  shows "bpm_wf h s'"
proof (cases "has_avail_frame s")
  case False
  with new have "s' = s" by (simp add: NewPgImp_def)
  with wf show ?thesis by simp
next
  case True
  let ?s0 = "s\<lparr>next_page_id := next_page_id s + 1\<rparr>"
  from new True obtain s1 f where room: "make_room h ?s0 = Returns (s1, f)"
    and inst: "install_page h s1 (next_page_id s) f = Returns s'"
    by (auto simp: NewPgImp_def Let_def split: outcome.splits)
  show ?thesis
    by (rule bpm_wf_installed [OF wf _ _ _ room inst]) simp_all
qed

lemma bpm_wf_FetchPgImp:
  assumes wf: "bpm_wf h s" and fetch: "FetchPgImp h s pid = Returns (s', r)"
  shows "bpm_wf h s'"
proof (cases "lookup h (page_table s) pid")
  case (Some f)
  from FetchPgImp_resident [OF wf Some] obtain r1 r2
    where ra: "RecordAccess (replacer s) f = Inr r1"
      and se: "SetEvictable r1 f False = Inr r2"
      and eq: "FetchPgImp h s pid =
        Returns (s\<lparr>pages := (pages s)
                   [nat f := (pages s ! nat f)\<lparr>pin_count := pin_count (pages s ! nat f) + 1\<rparr>],
                  replacer := r2\<rparr>, Some f)"
    by blast
  from fetch eq have s': "s' = s\<lparr>pages := (pages s)
      [nat f := (pages s ! nat f)\<lparr>pin_count := pin_count (pages s ! nat f) + 1\<rparr>],
      replacer := r2\<rparr>"
    by simp
  note res = bpm_wf_resident [OF wf Some]
  have ev: "evictable r2 g = (g \<noteq> f \<and> evictable (replacer s) g)" for g
    using SetEvictable_evictable(1) [OF se, of g] RecordAccess_evictable [OF ra]
    by (auto simp: evictable_def)
  have rs: "replacer_size r2 = replacer_size (replacer s)"
    using SetEvictable_evictable(3) [OF se] RecordAccess_evictable [OF ra] by simp
  show ?thesis
  proof (rule bpm_wf_frame [OF wf _ _ _ res(1)])
    show "ht_inv h (page_table s')" using wf by (simp add: s' bpm_wf_def)
    show "length (pages s') = length (pages s)" by (simp add: s')
    show "replacer_size (replacer s') = replacer_size (replacer s)" by (simp add: s' rs)
    show "x \<in># entries (page_table s') \<Longrightarrow> x \<in># entries (page_table s) \<or> snd x = f" for x
      by (simp add: s')
    show "pages s' ! g = pages s ! g" if "g \<noteq> nat f" for g
      using that by (simp add: s')
    show "evictable (replacer s') g = evictable (replacer s) g" if "g \<noteq> f" for g
      using that by (simp add: s' ev)
    show "(pin_count (pages s' ! nat f) = 0) = evictable (replacer s') f"
      using res(1) by (simp add: s' ev valid_frame_def)
  qed
next
  case None
  show ?thesis
  proof (cases "has_avail_frame s")
    case False
    with fetch None have "s' = s"
      by (simp add: FetchPgImp_def bpm_wf_Find [OF wf])
    with wf show ?thesis by simp
  next
    case True
    from fetch None True obtain s1 f s2 where room: "make_room h s = Returns (s1, f)"
      and inst: "install_page h s1 pid f = Returns s2"
      and s': "s' = s2\<lparr>pages := (pages s2)[nat f := (pages s2 ! nat f)\<lparr>data := disk s2 pid\<rparr>]\<rparr>"
      by (auto simp: FetchPgImp_def bpm_wf_Find [OF wf] Let_def split: outcome.splits)
    show ?thesis
      by (rule bpm_wf_installed [OF wf _ _ _ room inst, of s' "disk s2 pid"]) (simp_all add: s')
  qed
qed

lemma bpm_wf_UnpinPgImp:
  assumes wf: "bpm_wf h s" and unpin: "UnpinPgImp h s pid dirty = Returns (s', r)"
  shows "bpm_wf h s'"
proof (cases "lookup h (page_table s) pid")
  case None
  from unpin UnpinPgImp_not_resident [OF wf None, of dirty] wf show ?thesis by simp
next
  case (Some f)
  let ?p = "pages s ! nat f"
  note res = bpm_wf_resident [OF wf Some]
  show ?thesis
  proof (cases "pin_count ?p = 0")
    case True
    from unpin UnpinPgImp_unpinned [OF wf Some True, of dirty] wf show ?thesis by simp
  next
    case False
    from UnpinPgImp_pinned [OF wf Some False, of dirty] obtain r1
      where r1: "if pin_count ?p = 1 then SetEvictable (replacer s) f True = Inr r1
                 else r1 = replacer s"
        and eq: "UnpinPgImp h s pid dirty =
          Returns (s\<lparr>pages := (pages s)[nat f := ?p\<lparr>is_dirty := is_dirty ?p \<or> dirty,
                         pin_count := pin_count ?p - 1\<rparr>], replacer := r1\<rparr>, True)"
      by blast
    from unpin eq have s': "s' = s\<lparr>pages := (pages s)
        [nat f := ?p\<lparr>is_dirty := is_dirty ?p \<or> dirty, pin_count := pin_count ?p - 1\<rparr>],
        replacer := r1\<rparr>"
      by simp
    have ev: "evictable r1 g = (if g = f \<and> pin_count ?p = 1 then True else evictable (replacer s) g)"
      for g
      using r1 SetEvictable_evictable(1) [of "replacer s" f True r1 g]
      by (auto split: if_splits)
    have rs: "replacer_size r1 = replacer_size (replacer s)"
      using r1 SetEvictable_evictable(3) [of "replacer s" f True r1]
      by (auto split: if_splits)
    show ?thesis
    proof (rule bpm_wf_frame [OF wf _ _ _ res(1)])
      show "ht_inv h (page_table s')" using wf by (simp add: s' bpm_wf_def)
      show "length (pages s') = length (pages s)" by (simp add: s')
      show "replacer_size (replacer s') = replacer_size (replacer s)" by (simp add: s' rs)
      show "x \<in># entries (page_table s') \<Longrightarrow> x \<in># entries (page_table s) \<or> snd x = f" for x
        by (simp add: s')
      show "pages s' ! g = pages s ! g" if "g \<noteq> nat f" for g
        using that by (simp add: s')
      show "evictable (replacer s') g = evictable (replacer s) g" if "g \<noteq> f" for g
        using that by (simp add: s' ev)
      show "(pin_count (pages s' ! nat f) = 0) = evictable (replacer s') f"
        using res(1) res(3) False by (auto simp: s' ev valid_frame_def)
    qed
  qed
qed

lemma bpm_wf_FlushPgImp:
  assumes wf: "bpm_wf h s" and flush: "FlushPgImp h s pid = Returns (s', r)"
  shows "bpm_wf h s'"
proof (cases "lookup h (page_table s) pid")
  case None
  with flush have "s' = s" by (simp add: FlushPgImp_def bpm_wf_Find [OF wf])
  with wf show ?thesis by simp
next
  case (Some f)
  note res = bpm_wf_resident [OF wf Some]
  from flush Some res(1) have s': "s' = s\<lparr>disk := (disk s)(pid := data (pages s ! nat f)),
      pages := (pages s)[nat f := (pages s ! nat f)\<lparr>is_dirty := False\<rparr>]\<rparr>"
    by (simp add: FlushPgImp_def bpm_wf_Find [OF wf] Let_def)
  show ?thesis
  proof (rule bpm_wf_frame [OF wf _ _ _ res(1)])
    show "ht_inv h (page_table s')" using wf by (simp add: s' bpm_wf_def)
    show "length (pages s') = length (pages s)" by (simp add: s')
    show "replacer_size (replacer s') = replacer_size (replacer s)" by (simp add: s')
    show "x \<in># entries (page_table s') \<Longrightarrow> x \<in># entries (page_table s) \<or> snd x = f" for x
      by (simp add: s')
    show "pages s' ! g = pages s ! g" if "g \<noteq> nat f" for g
      using that by (simp add: s')
    show "evictable (replacer s') g = evictable (replacer s) g" for g
      by (simp add: s')
    show "(pin_count (pages s' ! nat f) = 0) = evictable (replacer s') f"
      using res(1) res(3) by (simp add: s' valid_frame_def)
  qed
qed

lemma Remove_key_returns:
  "ht_inv h s \<Longrightarrow> \<exists>s' found. Remove_key h s key = Inr (s', found)"
  using IndexOf_less [of h s key] by (simp add: Remove_key_def dir_at_def split_beta)

lemma bpm_wf_DeletePgImp:
  assumes wf: "bpm_wf h s" and del: "DeletePgImp h s pid = Returns (s', r)"
  shows "bpm_wf h s'"
proof (cases "lookup h (page_table s) pid")
  case None
  with del have "s' = s" by (simp add: DeletePgImp_def bpm_wf_Find [OF wf])
  with wf show ?thesis by simp
next
  case (Some f)
  let ?p = "pages s ! nat f"
  note res = bpm_wf_resident [OF wf Some]
  have ht: "ht_inv h (page_table s)" using wf by (simp add: bpm_wf_def)
  show ?thesis
  proof (cases "pin_count ?p > 0")
    case True
    with del Some res(1) have "s' = s"
      by (simp add: DeletePgImp_def bpm_wf_Find [OF wf] Let_def)
    with wf show ?thesis by simp
  next
    case False
    from Remove_key_returns [OF ht] obtain pt1 found
      where rk: "Remove_key h (page_table s) pid = Inr (pt1, found)"
      by blast
    from Remove_returns [OF res(2)] obtain r1 where rm: "Remove (replacer s) f = Inr r1"
      by blast
    define p2 where "p2 = ResetMemory
        ((if is_dirty ?p then ?p\<lparr>is_dirty := False\<rparr> else ?p)
           \<lparr>page_id := INVALID_PAGE_ID, pin_count := 0\<rparr>)"
    have p2: "pin_count p2 = 0" by (simp add: p2_def ResetMemory_def)
    from del Some res(1) False rk rm
    have pages': "pages s' = (pages s)[nat f := p2]" and repl': "replacer s' = r1"
      and table': "page_table s' = pt1"
      unfolding p2_def
      by (auto simp: DeletePgImp_def bpm_wf_Find [OF wf] Let_def)
    show ?thesis
    proof (rule bpm_wf_frame [OF wf _ _ _ res(1)])
      show "ht_inv h (page_table s')" using ht_inv_Remove [OF ht rk] by (simp add: table')
      show "length (pages s') = length (pages s)" by (simp add: pages')
      show "replacer_size (replacer s') = replacer_size (replacer s)"
        using Remove_evictable_all(2) [OF rm] by (simp add: repl')
      show "x \<in># entries (page_table s') \<Longrightarrow> x \<in># entries (page_table s) \<or> snd x = f" for x
        using Remove_key_entries [OF rk, of x] by (simp add: table')
      show "pages s' ! g = pages s ! g" if "g \<noteq> nat f" for g
        using that by (simp add: pages')
      show "evictable (replacer s') g = evictable (replacer s) g" for g
        using Remove_evictable_all(1) [OF rm] by (simp add: repl')
      show "(pin_count (pages s' ! nat f) = 0) = evictable (replacer s') f"
        using res(1) res(3) False p2 Remove_evictable_all(1) [OF rm, of f]
        by (simp add: pages' repl' valid_frame_def)
    qed
  qed
qed

lemma bpm_wf_init:
  assumes "pool_size < 2 ^ 31"
  shows "bpm_wf h (BufferPoolManagerInstance pool_size replacer_k bucket_size0 page_size disk0)"
proof -
  have e: "entries (ExtendibleHashTable bucket_size0 :: (page_id_t, frame_id_t) table) = {#}"
    by (simp add: entries_def ExtendibleHashTable_def Bucket_def)
  show ?thesis
    using assms
    by (simp add: bpm_wf_def BufferPoolManagerInstance_def ht_inv_new e LRUKReplacer_def
        evictable_def)
qed

lemma reachable_bpm_wf:
  assumes "reachable_bpm h pool_size replacer_k bucket_size0 page_size disk0 s"
    and "pool_size < 2 ^ 31"
  shows "bpm_wf h s"
  using assms
proof (induction rule: reachable_bpm.induct)
  case reach_init
  then show ?case by (rule bpm_wf_init)
next
  case (reach_NewPage s s' r)
  then show ?case by (blast intro: bpm_wf_NewPgImp)
next
  case (reach_FetchPage s pid s' fr)
  then show ?case by (blast intro: bpm_wf_FetchPgImp)
next
  case (reach_UnpinPage s pid dirty s' ok)
  then show ?case by (blast intro: bpm_wf_UnpinPgImp)
next
  case (reach_FlushPage s pid s' ok)
  then show ?case by (blast intro: bpm_wf_FlushPgImp)
next
  case (reach_DeletePage s pid s' ok)
  then show ?case by (blast intro: bpm_wf_DeletePgImp)
qed

subsection \<open>Pin count 0 and evictability\<close>

text \<open>
  Claim C1.  In every state reached from a new buffer pool through \<open>NewPage\<close>, \<open>FetchPage\<close>,
  \<open>UnpinPage\<close>, \<open>FlushPage\<close> and \<open>DeletePage\<close>, every frame that holds a page (its page id
  is not \<open>INVALID_PAGE_ID\<close>) has pin count 0 if and only if the replacer has it as
  evictable; in a pool of fewer than \<open>2^31\<close> frames the same holds of the frame that the
  page table has for a page id; and each of the five operations, when it returns, keeps
  the invariant.
\<close>

theorem pin_count_zero_iff_evictable:
  "(reachable_bpm h pool_size replacer_k bucket_size0 page_size disk0 s \<longrightarrow>
      (\<forall>f < length (pages s).
         page_id (pages s ! f) \<noteq> INVALID_PAGE_ID \<longrightarrow>
         (pin_count (pages s ! f) = 0) = evictable (replacer s) (int f))) \<and>
   (reachable_bpm h pool_size replacer_k bucket_size0 page_size disk0 s \<and> pool_size < 2 ^ 31 \<longrightarrow>
      (\<forall>pid f. frame_of h s pid = Some f \<longrightarrow>
         valid_frame s f \<and> (pin_count (pages s ! nat f) = 0) = evictable (replacer s) f)) \<and>
   (bpm_inv s \<longrightarrow>
      (\<forall>s' r. NewPgImp h s = Returns (s', r) \<longrightarrow> bpm_inv s') \<and>
      (\<forall>pid s' r. FetchPgImp h s pid = Returns (s', r) \<longrightarrow> bpm_inv s') \<and>
      (\<forall>pid dirty s' r. UnpinPgImp h s pid dirty = Returns (s', r) \<longrightarrow> bpm_inv s') \<and>
      (\<forall>pid s' r. FlushPgImp h s pid = Returns (s', r) \<longrightarrow> bpm_inv s') \<and>
      (\<forall>pid s' r. DeletePgImp h s pid = Returns (s', r) \<longrightarrow> bpm_inv s'))"
proof -
  have "\<forall>f < length (pages s). page_id (pages s ! f) \<noteq> INVALID_PAGE_ID \<longrightarrow>
         (pin_count (pages s ! f) = 0) = evictable (replacer s) (int f)"
    if "reachable_bpm h pool_size replacer_k bucket_size0 page_size disk0 s"
    using reachable_bpm_inv [OF that] by (simp add: bpm_inv_def)
  moreover have "valid_frame s f \<and> (pin_count (pages s ! nat f) = 0) = evictable (replacer s) f"
    if "reachable_bpm h pool_size replacer_k bucket_size0 page_size disk0 s"
      and "pool_size < 2 ^ 31" and "frame_of h s pid = Some f" for pid f
  proof -
    have wf: "bpm_wf h s" using that(1,2) by (rule reachable_bpm_wf)
    have l: "lookup h (page_table s) pid = Some f" using that(3) by (simp add: frame_of_def)
    show ?thesis using bpm_wf_resident(1,3) [OF wf l] by simp
  qed
  moreover have "bpm_inv s'" if "bpm_inv s" "NewPgImp h s = Returns (s', r)" for s' r
    using that by (rule bpm_inv_NewPgImp)
  moreover have "bpm_inv s'" if "bpm_inv s" "FetchPgImp h s pid = Returns (s', r)" for pid s' r
    using that by (rule bpm_inv_FetchPgImp)
  moreover have "bpm_inv s'" if "bpm_inv s" "UnpinPgImp h s pid dirty = Returns (s', r)"
    for pid dirty s' r
    using that by (rule bpm_inv_UnpinPgImp)
  moreover have "bpm_inv s'" if "bpm_inv s" "FlushPgImp h s pid = Returns (s', r)" for pid s' r
    using that by (rule bpm_inv_FlushPgImp)
  moreover have "bpm_inv s'" if "bpm_inv s" "DeletePgImp h s pid = Returns (s', r)" for pid s' r
    using that by (rule bpm_inv_DeletePgImp)
  ultimately show ?thesis by blast
qed

lemma two_pages_one_unpinned:
  "observe nat 0 (bpm_run nat (BufferPoolManagerInstance 2 2 4 0 (\<lambda>_. []))
       [NewPage, NewPage, UnpinPage 0 False]) =
     Returns (Some 0, ([(0, 0, False), (1, 1, False)], []),
       [Handle (Some (0, 0)), Handle (Some (1, 1)), Flag True])"
  by code_simp

lemma first_page_of_two:
  "map_outcome snd (NewPgImp nat (BufferPoolManagerInstance 2 2 4 0 (\<lambda>_. []))) =
     Returns (Some (0, 0))"
  by code_simp

theorem pin_count_zero_iff_evictable_witness:
  "(\<exists>s. reachable_bpm nat 2 2 4 0 (\<lambda>_. []) s \<and> frame_of nat s 0 = Some 0 \<and>
       page_id (pages s ! 0) = 0 \<and> pin_count (pages s ! 0) = 0 \<and> evictable (replacer s) 0 \<and>
       page_id (pages s ! 1) = 1 \<and> pin_count (pages s ! 1) = 1 \<and> \<not> evictable (replacer s) 1) \<and>
   (\<exists>s'. NewPgImp nat (BufferPoolManagerInstance 2 2 4 0 (\<lambda>_. [])) = Returns (s', Some (0, 0)) \<and>
       bpm_inv s')"
proof
  from two_pages_one_unpinned obtain s where
    run: "bpm_run nat (BufferPoolManagerInstance 2 2 4 0 (\<lambda>_. []))
            [NewPage, NewPage, UnpinPage 0 False] =
          Returns (s, [Handle (Some (0, 0)), Handle (Some (1, 1)), Flag True])"
    and fr: "frame_of nat s 0 = Some 0"
    and view: "pool_view s = ([(0, 0, False), (1, 1, False)], [])"
    by (rule observe_Returns)
  have reach: "reachable_bpm nat 2 2 4 0 (\<lambda>_. []) s"
    using reachable_bpm_run [OF reach_init run] .
  have len: "length (pages s) = 2"
    and p0: "page_id (pages s ! 0) = 0" "pin_count (pages s ! 0) = 0"
    and p1: "page_id (pages s ! 1) = 1" "pin_count (pages s ! 1) = 1"
    using pool_view_nth [OF view, of 0] pool_view_nth [OF view, of 1] by simp_all
  note inst = pin_count_zero_iff_evictable [of nat 2 2 4 0 "\<lambda>_. []" s]
  from inst reach
  have all: "\<forall>f < length (pages s). page_id (pages s ! f) \<noteq> INVALID_PAGE_ID \<longrightarrow>
         (pin_count (pages s ! f) = 0) = evictable (replacer s) (int f)"
    by blast
  have "(2::nat) < 2 ^ 31" by simp
  with inst reach
  have tab: "\<forall>pid f. frame_of nat s pid = Some f \<longrightarrow>
         valid_frame s f \<and> (pin_count (pages s ! nat f) = 0) = evictable (replacer s) f"
    by blast
  from tab [rule_format, OF fr] p0 have "evictable (replacer s) 0"
    by simp
  moreover from all [rule_format, of 1] len p1 have "\<not> evictable (replacer s) 1"
    by (simp add: INVALID_PAGE_ID_def)
  ultimately show "\<exists>s. reachable_bpm nat 2 2 4 0 (\<lambda>_. []) s \<and> frame_of nat s 0 = Some 0 \<and>
       page_id (pages s ! 0) = 0 \<and> pin_count (pages s ! 0) = 0 \<and> evictable (replacer s) 0 \<and>
       page_id (pages s ! 1) = 1 \<and> pin_count (pages s ! 1) = 1 \<and> \<not> evictable (replacer s) 1"
    using reach fr p0 p1 by (intro exI [of _ s]) simp
next
  let ?s0 = "BufferPoolManagerInstance 2 2 4 0 (\<lambda>_. [])"
  from first_page_of_two obtain s' where new: "NewPgImp nat ?s0 = Returns (s', Some (0, 0))"
    by (cases "NewPgImp nat ?s0") auto
  have "reachable_bpm nat 2 2 4 0 (\<lambda>_. []) ?s0" by (rule reach_init)
  with pin_count_zero_iff_evictable [of nat 2 2 4 0 "\<lambda>_. []" ?s0]
  have "bpm_inv ?s0" unfolding bpm_inv_def by blast
  with pin_count_zero_iff_evictable [of nat 2 2 4 0 "\<lambda>_. []" ?s0] new
  have "bpm_inv s'" by blast
  with new show "\<exists>s'. NewPgImp nat ?s0 = Returns (s', Some (0, 0)) \<and> bpm_inv s'"
    by blast
qed

subsection \<open>\<open>UnpinPage\<close>\<close>

text \<open>
  Claim C4.  In a reachable buffer pool (of fewer than \<open>2 ^ 31\<close> frames, the range of a
  frame id), \<open>UnpinPgImp(id, is_dirty)\<close> returns false and changes nothing when the page
  table has no frame for \<open>id\<close> or the frame's pin count is 0.  Otherwise it returns true,
  the pin count is one less, the dirty flag is the old flag or \<open>is_dirty\<close> (so \<open>false\<close>
  never clears it), the frame is evictable when the pin count has reached 0 and the
  replacer is untouched when it has not, and nothing else changes.
\<close>

theorem UnpinPgImp_behaviour:
  assumes reach: "reachable_bpm h pool_size replacer_k bucket_size0 page_size disk0 s"
    and small: "pool_size < 2 ^ 31"
  shows "case frame_of h s pid of
           None \<Rightarrow> UnpinPgImp h s pid dirty = Returns (s, False)
         | Some f \<Rightarrow>
             (if pin_count (pages s ! nat f) = 0
              then UnpinPgImp h s pid dirty = Returns (s, False)
              else \<exists>s'. UnpinPgImp h s pid dirty = Returns (s', True) \<and>
                     pin_count (pages s' ! nat f) = pin_count (pages s ! nat f) - 1 \<and>
                     is_dirty (pages s' ! nat f) = (is_dirty (pages s ! nat f) \<or> dirty) \<and>
                     (pin_count (pages s' ! nat f) = 0 \<longrightarrow> evictable (replacer s') f) \<and>
                     (pin_count (pages s' ! nat f) \<noteq> 0 \<longrightarrow> replacer s' = replacer s) \<and>
                     page_id (pages s' ! nat f) = page_id (pages s ! nat f) \<and>
                     data (pages s' ! nat f) = data (pages s ! nat f) \<and>
                     (\<forall>g. g \<noteq> nat f \<longrightarrow> pages s' ! g = pages s ! g) \<and>
                     page_table s' = page_table s \<and> free_list s' = free_list s \<and>
                     disk s' = disk s \<and> next_page_id s' = next_page_id s)"
proof -
  have wf: "bpm_wf h s" using reach small by (rule reachable_bpm_wf)
  show ?thesis
  proof (cases "frame_of h s pid")
    case None
    then show ?thesis
      using UnpinPgImp_not_resident [OF wf, of pid dirty] by (simp add: frame_of_def)
  next
    case (Some f)
    then have l: "lookup h (page_table s) pid = Some f" by (simp add: frame_of_def)
    let ?p = "pages s ! nat f"
    have v: "nat f < length (pages s)"
      using bpm_wf_resident(1) [OF wf l] by (simp add: valid_frame_def)
    show ?thesis
    proof (cases "pin_count ?p = 0")
      case True
      with Some show ?thesis
        using UnpinPgImp_unpinned [OF wf l True, of dirty] by simp
    next
      case False
      from UnpinPgImp_pinned [OF wf l False, of dirty] obtain r1
        where r1: "if pin_count ?p = 1 then SetEvictable (replacer s) f True = Inr r1
                   else r1 = replacer s"
          and eq: "UnpinPgImp h s pid dirty =
            Returns (s\<lparr>pages := (pages s)[nat f := ?p\<lparr>is_dirty := is_dirty ?p \<or> dirty,
                           pin_count := pin_count ?p - 1\<rparr>], replacer := r1\<rparr>, True)"
        by blast
      have ev: "pin_count ?p = 1 \<Longrightarrow> evictable r1 f"
        using r1 SetEvictable_evictable(1) [of "replacer s" f True r1 f] by simp
      have same: "pin_count ?p \<noteq> 1 \<Longrightarrow> r1 = replacer s"
        using r1 by simp
      show ?thesis
        using Some False v ev same unfolding eq by auto
    qed
  qed
qed

lemma one_page_pinned:
  "observe nat 0 (bpm_run nat (BufferPoolManagerInstance 2 2 4 0 (\<lambda>_. [])) [NewPage]) =
     Returns (Some 0, ([(0, 1, False), (- 1, 0, False)], [1]), [Handle (Some (0, 0))])"
  by code_simp

theorem UnpinPgImp_behaviour_witness:
  "\<exists>s s'. reachable_bpm nat 2 2 4 0 (\<lambda>_. []) s \<and> (2::nat) < 2 ^ 31 \<and>
     frame_of nat s 0 = Some 0 \<and> pin_count (pages s ! 0) = 1 \<and> \<not> is_dirty (pages s ! 0) \<and>
     UnpinPgImp nat s 0 True = Returns (s', True) \<and>
     pin_count (pages s' ! 0) = 0 \<and> is_dirty (pages s' ! 0) \<and> evictable (replacer s') 0"
proof -
  from one_page_pinned obtain s where
    run: "bpm_run nat (BufferPoolManagerInstance 2 2 4 0 (\<lambda>_. [])) [NewPage] =
          Returns (s, [Handle (Some (0, 0))])"
    and fr: "frame_of nat s 0 = Some 0"
    and view: "pool_view s = ([(0, 1, False), (- 1, 0, False)], [1])"
    by (rule observe_Returns)
  have reach: "reachable_bpm nat 2 2 4 0 (\<lambda>_. []) s"
    using reachable_bpm_run [OF reach_init run] .
  have small: "(2::nat) < 2 ^ 31" by simp
  have p0: "pin_count (pages s ! 0) = 1" "\<not> is_dirty (pages s ! 0)"
    using pool_view_nth [OF view, of 0] by simp_all
  from UnpinPgImp_behaviour [OF reach small, of 0 True] fr p0
  obtain s' where "UnpinPgImp nat s 0 True = Returns (s', True)"
    "pin_count (pages s' ! 0) = 0" "is_dirty (pages s' ! 0)" "evictable (replacer s') 0"
    by auto
  with reach small fr p0 show ?thesis by blast
qed

subsection \<open>\<open>FetchPage\<close> followed by \<open>UnpinPage\<close>\<close>

text \<open>
  Claim C5, as stated, fails for a page id that is not resident.  On a new pool of one
  frame, \<open>FetchPage(0)\<close> takes frame 0 from the free list and loads page 0; after
  \<open>UnpinPage(0, false)\<close> the free list is empty and frame 0 holds page 0, where before the
  free list held frame 0 and the frame held no page.
\<close>

theorem FetchPage_UnpinPage_counterexample:
  "pool_view (BufferPoolManagerInstance 1 2 4 0 (\<lambda>_. [])) = ([(- 1, 0, False)], [0]) \<and>
   frame_of nat (BufferPoolManagerInstance 1 2 4 0 (\<lambda>_. [])) 0 = None \<and>
   observe nat 0 (bpm_run nat (BufferPoolManagerInstance 1 2 4 0 (\<lambda>_. []))
       [FetchPage 0, UnpinPage 0 False]) =
     Returns (Some 0, ([(0, 0, False)], []), [Frame (Some 0), Flag True])"
  by code_simp

text \<open>
  Claim C5, amended.  For a page id that is resident in a reachable buffer pool (of fewer
  than \<open>2 ^ 31\<close> frames), \<open>FetchPage(id)\<close> and then \<open>UnpinPage(id, false)\<close> both succeed
  and leave the frames (page ids, pin counts, dirty flags and bytes), the page table, the
  free list, the next page id and the disk as they were; of the replacer, the evictable
  frames, \<open>curr_size_\<close>, \<open>replacer_size_\<close> and \<open>k_\<close> are as they were, so that only its
  access history can differ.
\<close>

theorem FetchPage_UnpinPage_resident:
  assumes reach: "reachable_bpm h pool_size replacer_k bucket_size0 page_size disk0 s"
    and small: "pool_size < 2 ^ 31"
    and resident: "frame_of h s pid = Some f"
  shows "\<exists>s1 s2. FetchPgImp h s pid = Returns (s1, Some f) \<and>
           UnpinPgImp h s1 pid False = Returns (s2, True) \<and>
           pages s2 = pages s \<and> page_table s2 = page_table s \<and> free_list s2 = free_list s \<and>
           next_page_id s2 = next_page_id s \<and> disk s2 = disk s \<and>
           curr_size (replacer s2) = curr_size (replacer s) \<and>
           (\<forall>g. evictable (replacer s2) g = evictable (replacer s) g) \<and>
           replacer_size (replacer s2) = replacer_size (replacer s) \<and>
           k_val (replacer s2) = k_val (replacer s)"
proof -
  have wf: "bpm_wf h s" using reach small by (rule reachable_bpm_wf)
  have l: "lookup h (page_table s) pid = Some f" using resident by (simp add: frame_of_def)
  let ?p = "pages s ! nat f"
  note res = bpm_wf_resident [OF wf l]
  have v: "nat f < length (pages s)" using res(1) by (simp add: valid_frame_def)
  from FetchPgImp_resident [OF wf l] obtain r1 r2
    where ra: "RecordAccess (replacer s) f = Inr r1"
      and se: "SetEvictable r1 f False = Inr r2"
      and fetch: "FetchPgImp h s pid =
        Returns (s\<lparr>pages := (pages s)[nat f := ?p\<lparr>pin_count := pin_count ?p + 1\<rparr>],
                  replacer := r2\<rparr>, Some f)"
    by blast
  let ?s1 = "s\<lparr>pages := (pages s)[nat f := ?p\<lparr>pin_count := pin_count ?p + 1\<rparr>], replacer := r2\<rparr>"
  have wf1: "bpm_wf h ?s1" using wf fetch by (rule bpm_wf_FetchPgImp)
  have l1: "lookup h (page_table ?s1) pid = Some f" using l by simp
  have pin1: "pin_count (pages ?s1 ! nat f) \<noteq> 0" using v by simp
  from UnpinPgImp_pinned [OF wf1 l1 pin1, of False] obtain r3
    where r3: "if pin_count (pages ?s1 ! nat f) = 1
               then SetEvictable (replacer ?s1) f True = Inr r3 else r3 = replacer ?s1"
      and unpin: "UnpinPgImp h ?s1 pid False =
        Returns (?s1\<lparr>pages := (pages ?s1)[nat f := (pages ?s1 ! nat f)
                        \<lparr>is_dirty := is_dirty (pages ?s1 ! nat f) \<or> False,
                         pin_count := pin_count (pages ?s1 ! nat f) - 1\<rparr>],
                    replacer := r3\<rparr>, True)"
    by blast
  let ?s2 = "?s1\<lparr>pages := (pages ?s1)[nat f := (pages ?s1 ! nat f)
                        \<lparr>is_dirty := is_dirty (pages ?s1 ! nat f) \<or> False,
                         pin_count := pin_count (pages ?s1 ! nat f) - 1\<rparr>],
                    replacer := r3\<rparr>"
  have restored: "?p\<lparr>pin_count := pin_count ?p + 1, is_dirty := is_dirty ?p,
      pin_count := pin_count ?p\<rparr> = ?p"
    by simp
  have pages: "pages ?s2 = pages s"
    using v by (simp add: restored)
  have ra': "is_evictable_map r1 = is_evictable_map (replacer s)" "curr_size r1 = curr_size (replacer s)"
    "replacer_size r1 = replacer_size (replacer s)"
    using RecordAccess_evictable [OF ra] by simp_all
  have ev1: "evictable r1 g = evictable (replacer s) g" for g
    by (simp add: evictable_def ra')
  have ev2: "evictable r2 g = (if g = f then False else evictable (replacer s) g)" for g
    using SetEvictable_evictable(1) [OF se, of g] ev1 by simp
  have c2: "curr_size r2 = (if evictable (replacer s) f then curr_size (replacer s) - 1
                            else curr_size (replacer s))"
    using SetEvictable_evictable(2) [OF se] ev1 [of f] ra' by simp
  have same_k: "k_val r3 = k_val (replacer s) \<and> replacer_size r3 = replacer_size (replacer s)"
    using r3 ra se
    by (auto simp: RecordAccess_def SetEvictable_def Let_def split_beta split: if_splits)
  have repl: "curr_size r3 = curr_size (replacer s) \<and>
      (\<forall>g. evictable r3 g = evictable (replacer s) g)"
  proof (cases "pin_count ?p = 0")
    case True
    with res(3) have e: "evictable (replacer s) f" by simp
    from True v r3 have se3: "SetEvictable r2 f True = Inr r3" by simp
    have "curr_size r3 = curr_size r2 + 1"
      using SetEvictable_evictable(2) [OF se3] ev2 [of f] by simp
    moreover have "evictable r3 g = evictable (replacer s) g" for g
      using SetEvictable_evictable(1) [OF se3, of g] ev2 [of g] e by simp
    ultimately show ?thesis using c2 e by simp
  next
    case False
    with res(3) have e: "\<not> evictable (replacer s) f" by simp
    from False v r3 have "r3 = r2" by simp
    with c2 e ev2 show ?thesis by auto
  qed
  have "FetchPgImp h s pid = Returns (?s1, Some f)" by (rule fetch)
  moreover have "UnpinPgImp h ?s1 pid False = Returns (?s2, True)" by (rule unpin)
  moreover have "page_table ?s2 = page_table s \<and> free_list ?s2 = free_list s \<and>
      next_page_id ?s2 = next_page_id s \<and> disk ?s2 = disk s"
    by simp
  moreover have "replacer ?s2 = r3" by simp
  ultimately show ?thesis
    using pages repl same_k by (intro exI [of _ ?s1] exI [of _ ?s2]) (simp only:, simp)
qed

lemma one_page_unpinned:
  "observe nat 0 (bpm_run nat (BufferPoolManagerInstance 2 2 4 0 (\<lambda>_. []))
       [NewPage, UnpinPage 0 True]) =
     Returns (Some 0, ([(0, 0, True), (- 1, 0, False)], [1]), [Handle (Some (0, 0)), Flag True])"
  by code_simp

theorem FetchPage_UnpinPage_resident_witness:
  "\<exists>s s1 s2. reachable_bpm nat 2 2 4 0 (\<lambda>_. []) s \<and> (2::nat) < 2 ^ 31 \<and>
     frame_of nat s 0 = Some 0 \<and>
     FetchPgImp nat s 0 = Returns (s1, Some 0) \<and> UnpinPgImp nat s1 0 False = Returns (s2, True) \<and>
     pages s2 = pages s \<and> page_table s2 = page_table s \<and> free_list s2 = free_list s \<and>
     curr_size (replacer s2) = curr_size (replacer s) \<and> is_dirty (pages s2 ! 0)"
proof -
  from one_page_unpinned obtain s where
    run: "bpm_run nat (BufferPoolManagerInstance 2 2 4 0 (\<lambda>_. [])) [NewPage, UnpinPage 0 True] =
          Returns (s, [Handle (Some (0, 0)), Flag True])"
    and fr: "frame_of nat s 0 = Some 0"
    and view: "pool_view s = ([(0, 0, True), (- 1, 0, False)], [1])"
    by (rule observe_Returns)
  have reach: "reachable_bpm nat 2 2 4 0 (\<lambda>_. []) s"
    using reachable_bpm_run [OF reach_init run] .
  have small: "(2::nat) < 2 ^ 31" by simp
  have d: "is_dirty (pages s ! 0)"
    using pool_view_nth [OF view, of 0] by simp
  from FetchPage_UnpinPage_resident [OF reach small fr]
  obtain s1 s2 where "FetchPgImp nat s 0 = Returns (s1, Some 0)"
    "UnpinPgImp nat s1 0 False = Returns (s2, True)"
    "pages s2 = pages s" "page_table s2 = page_table s" "free_list s2 = free_list s"
    "curr_size (replacer s2) = curr_size (replacer s)"
    by blast
  with reach small fr d show ?thesis by (intro exI [of _ s] exI [of _ s1] exI [of _ s2]) simp
qed

end
